theory Spec2Isabelle
  imports Main "HOL-Library.Word"
begin

section \<open>vtk2raw: point-data arrays written as one raw matrix\<close>

text \<open>
  A shallow embedding of \<^verbatim>\<open>src/vtk2raw.cxx\<close>.  The program reads the point data of
  a VTK file, checks that all its arrays have the same number of tuples, and writes the
  arrays side by side, one tuple per row, either as text or as raw doubles.

  Conventions of the embedding.
  \<^item> C++ \<^verbatim>\<open>unsigned int\<close> is \<open>32 word\<close> and \<^verbatim>\<open>unsigned long long\<close> is
    \<open>64 word\<close>; \<^verbatim>\<open>int\<close> and \<^verbatim>\<open>vtkIdType\<close> (the 64-bit id type of VTK) values
    are kept as the words of their bit patterns, so that the implicit conversions of the
    source are \<open>ucast\<close> or the identity.
  \<^item> A \<^verbatim>\<open>double\<close> is the \<open>64 word\<close> of its IEEE 754 binary64 bit pattern.
  \<^item> A \<^verbatim>\<open>char *\<close> string is the \<open>string\<close> of its characters before the terminator.
  \<^item> \<^verbatim>\<open>exit\<close> and undefined behaviour end a run; they are the left summand of
    the result of every function that can reach them.
  \<^item> What is written to \<^verbatim>\<open>std::cout\<close> is progress chatter and is left out;
    \<^verbatim>\<open>std::cerr\<close> and the file system are part of the state.
\<close>

subsection \<open>Counted loops\<close>

text \<open>
  \<^verbatim>\<open>for(unsigned i = i0; i < n; i++) body\<close> with the counter as a machine word.
  The counter never wraps inside the loop: it is below \<open>n\<close> whenever it is incremented.
\<close>

function for_loop :: "'a::len word \<Rightarrow> 'a word \<Rightarrow> ('a word \<Rightarrow> 's \<Rightarrow> 's) \<Rightarrow> 's \<Rightarrow> 's" where
  "for_loop i n body s = (if i < n then for_loop (i + 1) n body (body i s) else s)"
  by pat_completeness auto

termination for_loop
proof (relation "measure (\<lambda>(i, n, body, s). unat n - unat i)", goal_cases)
  case 1
  show ?case by simp
next
  case (2 i n body s)
  then have a: "unat i < unat n" by (simp add: word_less_nat_alt)
  have b: "unat n < 2 ^ LENGTH('a)" by (rule unsigned_less)
  have c: "unat (1 :: 'a word) = 1" by simp
  from a b c have "unat i + unat (1 :: 'a word) < 2 ^ LENGTH('a)" by linarith
  then have "unat (i + 1) = unat i + unat (1 :: 'a word)" by (simp only: unat_add_lem)
  with a c show ?case by simp
qed

declare for_loop.simps [simp del]

subsection \<open>Doubles and their two external representations\<close>

type_synonym double = "64 word"

text \<open>
  Modelled from the spec: the text serializer prints every field at ``a fixed decimal
  precision of 16 significant digits, using the host's default floating-point text
  representation at that precision (not locale-dependent, not
  scientific-notation-forced)''.  The inserter of doubles belongs to the C++ library and is
  not in the repository.  The definitions from here to \<open>format_g\<close> are that
  representation: what \<^verbatim>\<open>printf\<close> prints under \<^verbatim>\<open>%.Pg\<close> in the C locale, computed
  exactly and rounded to nearest, ties to even.
\<close>

text \<open>The three fields of a binary64: sign, biased exponent, fraction.\<close>

definition sign_bit :: "double \<Rightarrow> bool" where
  "sign_bit d = (unat d div 2 ^ 63 = 1)"

definition biased_exponent :: "double \<Rightarrow> nat" where
  "biased_exponent d = unat d div 2 ^ 52 mod 2 ^ 11"

definition fraction :: "double \<Rightarrow> nat" where
  "fraction d = unat d mod 2 ^ 52"

text \<open>
  The magnitude of a finite double as a quotient of two naturals:
  \<open>fraction * 2^-1074\<close> for a subnormal, \<open>(2^52 + fraction) * 2^(e - 1075)\<close> otherwise.
\<close>

definition magnitude :: "double \<Rightarrow> nat \<times> nat" where
  "magnitude d =
     (let e = biased_exponent d; f = fraction d in
      if e = 0 then (f, 2 ^ 1074)
      else if e < 1075 then (2 ^ 52 + f, 2 ^ (1075 - e))
      else ((2 ^ 52 + f) * 2 ^ (e - 1075), 1))"

function ndigits :: "nat \<Rightarrow> nat" where
  "ndigits n = (if n < 10 then 1 else Suc (ndigits (n div 10)))"
  by pat_completeness auto
termination
  by (relation "measure id") auto

declare ndigits.simps [simp del]

text \<open>The decimal digits of \<open>n\<close>, most significant first, padded with zeros to \<open>k\<close> places.\<close>

definition digit :: "nat \<Rightarrow> char" where
  "digit n = ''0123456789'' ! (n mod 10)"

fun digits :: "nat \<Rightarrow> nat \<Rightarrow> string" where
  "digits k n = (if k = 0 then [] else digits (k - 1) (n div 10) @ [digit n])"

declare digits.simps [simp del]

definition decimal :: "nat \<Rightarrow> string" where
  "decimal n = digits (ndigits n) n"

text \<open>The exponent \<open>X\<close> with \<open>10^X \<le> num / den < 10^(X+1)\<close>, for \<open>num > 0\<close>.\<close>

definition decimal_exponent :: "nat \<Rightarrow> nat \<Rightarrow> int" where
  "decimal_exponent num den =
     (if den \<le> num then int (ndigits (num div den)) - 1
      else - int (ndigits ((den - 1) div num)))"

text \<open>Division rounded to nearest, ties to even.\<close>

definition round_div :: "nat \<Rightarrow> nat \<Rightarrow> nat" where
  "round_div a b =
     (let q = a div b; r = a mod b in
      if b < 2 * r \<or> (2 * r = b \<and> odd q) then q + 1 else q)"

text \<open>
  The first \<open>P\<close> significant decimal digits of \<open>num / den\<close>, correctly rounded, with the
  decimal exponent of the rounded value.
\<close>

definition significand :: "nat \<Rightarrow> nat \<Rightarrow> nat \<Rightarrow> nat \<times> int" where
  "significand P num den =
     (let X = decimal_exponent num den;
          k = int P - 1 - X;
          S = (if 0 \<le> k then round_div (num * 10 ^ nat k) den
               else round_div num (den * 10 ^ nat (- k)))
      in if S = 10 ^ P then (10 ^ (P - 1), X + 1) else (S, X))"

definition strip_zeros :: "string \<Rightarrow> string" where
  "strip_zeros s = rev (dropWhile (\<lambda>c. c = CHR ''0'') (rev s))"

definition with_point :: "string \<Rightarrow> string \<Rightarrow> string" where
  "with_point ip fp = (if strip_zeros fp = [] then ip else ip @ ''.'' @ strip_zeros fp)"

text \<open>
  The text of a magnitude with the \<open>P\<close> significant digits \<open>S\<close> and the decimal
  exponent \<open>X\<close>: scientific notation if \<open>X < -4\<close> or \<open>X \<ge> P\<close>, positional notation
  otherwise, the trailing zeros of the fraction removed in both.
\<close>

definition layout_g :: "nat \<Rightarrow> nat \<Rightarrow> int \<Rightarrow> string" where
  "layout_g P S X =
     (let ds = digits P S
      in if X < - 4 \<or> int P \<le> X
         then with_point (take 1 ds) (drop 1 ds)
                @ ''e'' @ (if X < 0 then ''-'' else ''+'')
                @ digits (max 2 (ndigits (nat \<bar>X\<bar>))) (nat \<bar>X\<bar>)
         else if 0 \<le> X
         then with_point (take (nat X + 1) ds) (drop (nat X + 1) ds)
         else with_point ''0'' (replicate (nat (- X) - 1) CHR ''0'' @ ds))"

text \<open>
  Modelled from the spec: ``a fixed decimal precision of 16 significant digits, using the
  host's default floating-point text representation at that precision (not
  locale-dependent, not scientific-notation-forced)''.  The routine itself belongs to the
  C++ library and is not in the repository: a stream whose float field is unset prints a
  double as \<^verbatim>\<open>printf\<close> does under \<^verbatim>\<open>%.Pg\<close>, \<open>P\<close> being the precision of the stream.
\<close>

definition format_g :: "nat \<Rightarrow> double \<Rightarrow> string" where
  "format_g precision d =
     (let P = (if precision = 0 then 1 else precision);
          sgn = (if sign_bit d then ''-'' else [])
      in if biased_exponent d = 2047 then sgn @ (if fraction d = 0 then ''inf'' else ''nan'')
         else if fst (magnitude d) = 0 then sgn @ ''0''
         else sgn @ (case significand P (fst (magnitude d)) (snd (magnitude d)) of
                       (S, X) \<Rightarrow> layout_g P S X))"

text \<open>
  The object representation of a double, as \<^verbatim>\<open>reinterpret_cast<char*>(&Value)\<close> reads
  it: its eight bytes in the byte order of the host.
\<close>

datatype endian = LittleEndian | BigEndian

definition object_representation :: "endian \<Rightarrow> double \<Rightarrow> string" where
  "object_representation e d =
     (let bytes = map (\<lambda>k. char_of (unat d div 256 ^ k)) [0 ..< 8]
      in case e of LittleEndian \<Rightarrow> bytes | BigEndian \<Rightarrow> rev bytes)"

subsection \<open>Data arrays, point data and the output stream\<close>

text \<open>
  What the program uses of a \<^verbatim>\<open>vtkDataArray\<close>: its name, its number of components
  (an \<^verbatim>\<open>int\<close>), its number of tuples (a \<^verbatim>\<open>vtkIdType\<close>) and the accessor
  \<^verbatim>\<open>GetComponent(tupleIdx, compIdx)\<close>.
\<close>

record vtkDataArray =
  GetName :: string
  GetNumberOfComponents :: "32 word"
  GetNumberOfTuples :: "64 word"
  GetComponent :: "64 word \<Rightarrow> 32 word \<Rightarrow> double"

text \<open>
  The point data of a data set: \<^verbatim>\<open>GetNumberOfArrays()\<close> is the length of the list
  and \<^verbatim>\<open>GetArray(i)\<close> its \<open>i\<close>-th slot, \<open>None\<close> where VTK returns \<^verbatim>\<open>NULL\<close>
  (the slot holds no data array).
\<close>

type_synonym vtkPointData = "vtkDataArray option list"

definition DECIMAL_PRECISION :: nat where
  "DECIMAL_PRECISION = 16"

definition CHAR_LENGTH :: nat where
  "CHAR_LENGTH = 256"

definition tab :: string where
  "tab = [CHR 0x09]"

definition newline :: string where
  "newline = [CHR 0x0A]"

text \<open>An open \<^verbatim>\<open>std::ofstream\<close>: its precision and the characters written so far.\<close>

record ofstream =
  precision :: nat
  contents :: string

definition put_string :: "ofstream \<Rightarrow> string \<Rightarrow> ofstream" where
  "put_string f s = f\<lparr>contents := contents f @ s\<rparr>"

definition put_double :: "ofstream \<Rightarrow> double \<Rightarrow> ofstream" where
  "put_double f v = put_string f (format_g (precision f) v)"

definition endl :: "ofstream \<Rightarrow> ofstream" where
  "endl f = put_string f newline"

definition write_double :: "endian \<Rightarrow> ofstream \<Rightarrow> double \<Rightarrow> ofstream" where
  "write_double e f v = put_string f (object_representation e v)"

subsection \<open>\<^verbatim>\<open>WriteArraysToASCIIFile\<close>\<close>

text \<open>
  The three nested loops, innermost first.  The writers are reached with the arrays that
  passed the checks of \<^verbatim>\<open>WriteArraysToOutputFile\<close>, so \<open>InputDataArrays\<close> holds the
  arrays themselves and has at least one element.
\<close>

definition ascii_component ::
  "vtkDataArray list \<Rightarrow> 32 word list \<Rightarrow> string \<Rightarrow> 64 word \<Rightarrow> 32 word \<Rightarrow> 32 word
     \<Rightarrow> ofstream \<Rightarrow> ofstream" where
  "ascii_component InputDataArrays NumberOfComponentsInEachArray Delimiter
       TupleIterator ArrayIterator ComponentIterator OutputFile =
     (let OutputFile = put_double OutputFile
            (GetComponent (InputDataArrays ! unat ArrayIterator) TupleIterator ComponentIterator)
      in if ComponentIterator < NumberOfComponentsInEachArray ! unat ArrayIterator - 1
         then put_string OutputFile Delimiter else OutputFile)"

definition ascii_array ::
  "vtkDataArray list \<Rightarrow> 32 word \<Rightarrow> 32 word list \<Rightarrow> string \<Rightarrow> 64 word \<Rightarrow> 32 word
     \<Rightarrow> ofstream \<Rightarrow> ofstream" where
  "ascii_array InputDataArrays NumberOfArrays NumberOfComponentsInEachArray Delimiter
       TupleIterator ArrayIterator OutputFile =
     (let OutputFile = for_loop 0 (NumberOfComponentsInEachArray ! unat ArrayIterator)
            (ascii_component InputDataArrays NumberOfComponentsInEachArray Delimiter
               TupleIterator ArrayIterator) OutputFile
      in if ArrayIterator < NumberOfArrays - 1
         then put_string OutputFile Delimiter else OutputFile)"

definition ascii_tuple ::
  "vtkDataArray list \<Rightarrow> 32 word \<Rightarrow> 32 word list \<Rightarrow> string \<Rightarrow> 64 word \<Rightarrow> 64 word
     \<Rightarrow> ofstream \<Rightarrow> ofstream" where
  "ascii_tuple InputDataArrays NumberOfArrays NumberOfComponentsInEachArray Delimiter
       NumberOfTuples TupleIterator OutputFile =
     (let OutputFile = for_loop 0 NumberOfArrays
            (ascii_array InputDataArrays NumberOfArrays NumberOfComponentsInEachArray Delimiter
               TupleIterator) OutputFile
      in if TupleIterator < NumberOfTuples - 1 then endl OutputFile else OutputFile)"

definition WriteArraysToASCIIFile ::
  "ofstream \<Rightarrow> vtkDataArray list \<Rightarrow> 32 word \<Rightarrow> 32 word list \<Rightarrow> ofstream" where
  "WriteArraysToASCIIFile OutputFile InputDataArrays NumberOfArrays
       NumberOfComponentsInEachArray =
     (let Delimiter = tab;
          NumberOfTuples = GetNumberOfTuples (InputDataArrays ! 0)
      in for_loop 0 NumberOfTuples
           (ascii_tuple InputDataArrays NumberOfArrays NumberOfComponentsInEachArray
              Delimiter NumberOfTuples) OutputFile)"

subsection \<open>\<^verbatim>\<open>WriteArraysToBinaryFile\<close>\<close>

definition binary_component ::
  "endian \<Rightarrow> vtkDataArray list \<Rightarrow> 64 word \<Rightarrow> 32 word \<Rightarrow> 32 word \<Rightarrow> ofstream \<Rightarrow> ofstream" where
  "binary_component e InputDataArrays TupleIterator ArrayIterator ComponentIterator OutputFile =
     (let Value = GetComponent (InputDataArrays ! unat ArrayIterator)
                    TupleIterator ComponentIterator
      in write_double e OutputFile Value)"

definition binary_array ::
  "endian \<Rightarrow> vtkDataArray list \<Rightarrow> 32 word list \<Rightarrow> 64 word \<Rightarrow> 32 word
     \<Rightarrow> ofstream \<Rightarrow> ofstream" where
  "binary_array e InputDataArrays NumberOfComponentsInEachArray TupleIterator ArrayIterator
       OutputFile =
     for_loop 0 (NumberOfComponentsInEachArray ! unat ArrayIterator)
       (binary_component e InputDataArrays TupleIterator ArrayIterator) OutputFile"

definition binary_tuple ::
  "endian \<Rightarrow> vtkDataArray list \<Rightarrow> 32 word \<Rightarrow> 32 word list \<Rightarrow> 64 word
     \<Rightarrow> ofstream \<Rightarrow> ofstream" where
  "binary_tuple e InputDataArrays NumberOfArrays NumberOfComponentsInEachArray TupleIterator
       OutputFile =
     for_loop 0 NumberOfArrays
       (binary_array e InputDataArrays NumberOfComponentsInEachArray TupleIterator) OutputFile"

definition WriteArraysToBinaryFile ::
  "endian \<Rightarrow> ofstream \<Rightarrow> vtkDataArray list \<Rightarrow> 32 word \<Rightarrow> 32 word list \<Rightarrow> ofstream" where
  "WriteArraysToBinaryFile e OutputFile InputDataArrays NumberOfArrays
       NumberOfComponentsInEachArray =
     (let NumberOfTuples = GetNumberOfTuples (InputDataArrays ! 0)
      in for_loop 0 NumberOfTuples
           (binary_tuple e InputDataArrays NumberOfArrays NumberOfComponentsInEachArray)
           OutputFile)"

subsection \<open>The process: how a run ends, and what it leaves behind\<close>

text \<open>
  \<open>Exit n\<close> is \<^verbatim>\<open>exit(n)\<close>; \<open>Undefined\<close> is a step for which C++ defines no behaviour
  (a null pointer dereferenced, a buffer overrun, a conversion out of range).  The world
  holds what was written to \<^verbatim>\<open>std::cerr\<close> and the files on disk, path by path.
\<close>

datatype stop = Exit int | Undefined

record world =
  cerr :: string
  disk :: "string \<rightharpoonup> string"

definition print_error :: "string \<Rightarrow> world \<Rightarrow> world" where
  "print_error s w = w\<lparr>cerr := cerr w @ s\<rparr>"

text \<open>
  What the program takes from its host: the byte order, whether a path can be opened for
  writing, and the point data that the VTK reader of each file type delivers for a path.
\<close>

datatype InputFileType = VTK | VTI | VTP | VTU | NUMBER_OF_INPUT_FILE_TYPES

record host =
  byte_order :: endian
  openable :: "string \<Rightarrow> bool"
  point_data :: "InputFileType \<Rightarrow> string \<Rightarrow> vtkPointData"

subsection \<open>\<^verbatim>\<open>OpenFile\<close>\<close>

text \<open>
  Opening creates or truncates the file.  The text and the binary open mode differ only
  in the translation of line ends, which the hosts modelled here do not perform.
\<close>

definition OpenFile :: "host \<Rightarrow> string \<Rightarrow> bool \<Rightarrow> world \<Rightarrow> (stop + ofstream) \<times> world" where
  "OpenFile h OutputFilename BinaryOutputFile w =
     (if \<not> openable h OutputFilename
      then (Inl (Exit 1),
            print_error (''Can not open output file: '' @ OutputFilename @ newline) w)
      else (Inr \<lparr>precision = DECIMAL_PRECISION, contents = []\<rparr>,
            w\<lparr>disk := (disk w)(OutputFilename \<mapsto> [])\<rparr>))"

subsection \<open>\<^verbatim>\<open>WriteArraysToOutputFile\<close>\<close>

text \<open>
  The loop over the arrays (lines 414 to 457).  The three variable-length arrays are
  filled in index order, so they are lists that grow at the end.  The tuple counts are
  stored as \<^verbatim>\<open>unsigned int\<close>: the \<^verbatim>\<open>vtkIdType\<close> is cut to its low 32 bits before
  it is compared.  A null slot is reported on \<^verbatim>\<open>std::cerr\<close> and then dereferenced.
\<close>

type_synonym checked = "vtkDataArray list \<times> 32 word list \<times> 32 word list \<times> 32 word"

function check_arrays ::
  "vtkPointData \<Rightarrow> 32 word \<Rightarrow> 32 word \<Rightarrow> checked \<Rightarrow> world \<Rightarrow> (stop + checked) \<times> world" where
  "check_arrays InputPointData NumberOfArrays ArrayIterator
       (InputDataArrays, NumberOfComponentsInEachArray, NumberOfTuplesInEachArray,
        ColumnCounter) w =
     (if ArrayIterator < NumberOfArrays then
        (case InputPointData ! unat ArrayIterator of
           None \<Rightarrow>
             (Inl Undefined,
              print_error (''Array '' @ decimal (unat ArrayIterator) @ '' is NULL.'' @ newline) w)
         | Some a \<Rightarrow>
             (let Components = NumberOfComponentsInEachArray @ [GetNumberOfComponents a];
                  Tuples = NumberOfTuplesInEachArray @ [ucast (GetNumberOfTuples a)]
              in if 0 < ArrayIterator \<and> Tuples ! unat ArrayIterator \<noteq> Tuples ! 0
                 then (Inl (Exit 1),
                       print_error (''Inconsistent file: ''
                         @ ''number of tuples in arrays are not the same.'' @ newline) w)
                 else check_arrays InputPointData NumberOfArrays (ArrayIterator + 1)
                        (InputDataArrays @ [a], Components, Tuples,
                         ColumnCounter + GetNumberOfComponents a) w))
      else (Inr (InputDataArrays, NumberOfComponentsInEachArray, NumberOfTuplesInEachArray,
                 ColumnCounter), w))"
  by pat_completeness auto
termination check_arrays
proof (relation "measure (\<lambda>(P, n, i, c, w). unat n - unat i)", goal_cases)
  case 1
  show ?case by simp
next
  case (2 P n i As Cs Ts Col w a Components Tuples)
  then have a: "unat i < unat n" by (simp add: word_less_nat_alt)
  have b: "unat n < 2 ^ 32" using unsigned_less [of n] by simp
  from a b have "unat i + unat (1 :: 32 word) < 2 ^ LENGTH(32)" by simp
  then have "unat (i + 1) = unat i + unat (1 :: 32 word)" by (simp only: unat_add_lem)
  with a show ?case by simp
qed

declare check_arrays.simps [simp del]

definition WriteArraysToOutputFile ::
  "host \<Rightarrow> vtkPointData \<Rightarrow> string \<Rightarrow> bool \<Rightarrow> world \<Rightarrow> (stop + unit) \<times> world" where
  "WriteArraysToOutputFile h InputPointData OutputFilename BinaryOutputFile w =
     (let NumberOfArrays = (of_nat (length InputPointData) :: 32 word)
      in if sint NumberOfArrays < 1
         then (Inl (Exit 1), print_error (''DataSet has no array.'' @ newline) w)
         else
           (case check_arrays InputPointData NumberOfArrays 0 ([], [], [], 0) w of
              (Inl e, w) \<Rightarrow> (Inl e, w)
            | (Inr (InputDataArrays, NumberOfComponentsInEachArray,
                    NumberOfTuplesInEachArray, ColumnCounter), w) \<Rightarrow>
                (case OpenFile h OutputFilename BinaryOutputFile w of
                   (Inl e, w) \<Rightarrow> (Inl e, w)
                 | (Inr OutputFile, w) \<Rightarrow>
                     (let OutputFile =
                            (if BinaryOutputFile = False
                             then WriteArraysToASCIIFile OutputFile InputDataArrays
                                    NumberOfArrays NumberOfComponentsInEachArray
                             else WriteArraysToBinaryFile (byte_order h) OutputFile
                                    InputDataArrays NumberOfArrays
                                    NumberOfComponentsInEachArray)
                      in (Inr (),
                          w\<lparr>disk := (disk w)(OutputFilename \<mapsto> contents OutputFile)\<rparr>)))))"

subsection \<open>\<^verbatim>\<open>DetermineInputFileType\<close>\<close>

text \<open>
  \<^verbatim>\<open>strcmp\<close>: zero for equal strings, otherwise the difference of the first two
  characters that differ (the terminator counting as 0).
\<close>

fun strcmp :: "string \<Rightarrow> string \<Rightarrow> int" where
  "strcmp [] [] = 0"
| "strcmp [] (y # ys) = - of_char y"
| "strcmp (x # xs) [] = of_char x"
| "strcmp (x # xs) (y # ys) = (if x = y then strcmp xs ys else of_char x - of_char y)"

text \<open>\<^verbatim>\<open>std::string::find_last_of\<close> for a single character; \<open>None\<close> is \<^verbatim>\<open>npos\<close>.\<close>

definition find_last_of :: "string \<Rightarrow> char \<Rightarrow> nat option" where
  "find_last_of s c =
     (if c \<in> set s then Some (length s - 1 - length (takeWhile (\<lambda>x. x \<noteq> c) (rev s)))
      else None)"

text \<open>
  The extension is copied with \<^verbatim>\<open>strcpy\<close> into a buffer of \<open>CHAR_LENGTH\<close>
  characters: together with its terminator it fits only if it is shorter than that.
  In the third and fourth comparison the result of \<^verbatim>\<open>strcmp\<close> is used as the
  condition itself, so these branches are taken when the strings differ.
\<close>

definition DetermineInputFileType :: "string \<Rightarrow> world \<Rightarrow> (stop + InputFileType) \<times> world" where
  "DetermineInputFileType InputFilename w =
     (case find_last_of InputFilename CHR ''.'' of
        None \<Rightarrow>
          (Inl (Exit 1),
           print_error (''No file extension found in the Input filename.'' @ newline) w)
      | Some FoundLastDot \<Rightarrow>
          (let FileExtensionString = drop (FoundLastDot + 1) InputFilename
           in if CHAR_LENGTH \<le> length FileExtensionString then (Inl Undefined, w)
              else
                (let FileExtension = FileExtensionString
                 in if strcmp FileExtension ''vtk'' = 0 then (Inr VTK, w)
                    else if strcmp FileExtension ''vti'' = 0 then (Inr VTI, w)
                    else if strcmp FileExtension ''VTP'' \<noteq> 0 then (Inr VTP, w)
                    else if strcmp FileExtension ''VTU'' \<noteq> 0 then (Inr VTU, w)
                    else (Inl (Exit 1),
                          print_error (''No valid input file extension found.'' @ newline) w))))"

subsection \<open>The four readers and their dispatch\<close>

text \<open>
  Each reader function loads the file with the VTK reader of its type, takes the point
  data of the result and hands it to \<^verbatim>\<open>WriteArraysToOutputFile\<close>.
\<close>

definition ReadVTKInputFileWriteToOutputFile ::
  "host \<Rightarrow> string \<Rightarrow> string \<Rightarrow> bool \<Rightarrow> world \<Rightarrow> (stop + unit) \<times> world" where
  "ReadVTKInputFileWriteToOutputFile h InputFilename OutputFilename BinaryOutputFile w =
     (let InputPointData = point_data h VTK InputFilename
      in WriteArraysToOutputFile h InputPointData OutputFilename BinaryOutputFile w)"

definition ReadVTIInputFileWriteToOutputFile ::
  "host \<Rightarrow> string \<Rightarrow> string \<Rightarrow> bool \<Rightarrow> world \<Rightarrow> (stop + unit) \<times> world" where
  "ReadVTIInputFileWriteToOutputFile h InputFilename OutputFilename BinaryOutputFile w =
     (let InputPointData = point_data h VTI InputFilename
      in WriteArraysToOutputFile h InputPointData OutputFilename BinaryOutputFile w)"

definition ReadVTPInputFileWriteToOutputFile ::
  "host \<Rightarrow> string \<Rightarrow> string \<Rightarrow> bool \<Rightarrow> world \<Rightarrow> (stop + unit) \<times> world" where
  "ReadVTPInputFileWriteToOutputFile h InputFilename OutputFilename BinaryOutputFile w =
     (let InputPointData = point_data h VTP InputFilename
      in WriteArraysToOutputFile h InputPointData OutputFilename BinaryOutputFile w)"

definition ReadVTUInputFileWriteToOutputFile ::
  "host \<Rightarrow> string \<Rightarrow> string \<Rightarrow> bool \<Rightarrow> world \<Rightarrow> (stop + unit) \<times> world" where
  "ReadVTUInputFileWriteToOutputFile h InputFilename OutputFilename BinaryOutputFile w =
     (let InputPointData = point_data h VTU InputFilename
      in WriteArraysToOutputFile h InputPointData OutputFilename BinaryOutputFile w)"

definition ReadDataSetWriteToOutput ::
  "host \<Rightarrow> string \<Rightarrow> string \<Rightarrow> bool \<Rightarrow> world \<Rightarrow> (stop + unit) \<times> world" where
  "ReadDataSetWriteToOutput h InputFilename OutputFilename BinaryOutputFile w =
     (case DetermineInputFileType InputFilename w of
        (Inl e, w) \<Rightarrow> (Inl e, w)
      | (Inr InputFile, w) \<Rightarrow>
          if InputFile = VTK
          then ReadVTKInputFileWriteToOutputFile h InputFilename OutputFilename BinaryOutputFile w
          else if InputFile = VTI
          then ReadVTIInputFileWriteToOutputFile h InputFilename OutputFilename BinaryOutputFile w
          else if InputFile = VTP
          then ReadVTPInputFileWriteToOutputFile h InputFilename OutputFilename BinaryOutputFile w
          else if InputFile = VTU
          then ReadVTUInputFileWriteToOutputFile h InputFilename OutputFilename BinaryOutputFile w
          else (Inl (Exit 1), print_error (''Invalid input file type.'' @ newline) w))"

subsection \<open>\<^verbatim>\<open>main\<close>\<close>

text \<open>
  \<^verbatim>\<open>atoi\<close>: white space is skipped, an optional sign and the longest run of decimal
  digits are read; the result is \<open>None\<close> where the value does not fit an \<^verbatim>\<open>int\<close>
  and C leaves the behaviour undefined.
\<close>

definition isspace :: "char \<Rightarrow> bool" where
  "isspace c = (c \<in> set [CHR '' '', CHR 0x09, CHR 0x0A, CHR 0x0B, CHR 0x0C, CHR 0x0D])"

definition isdigit :: "char \<Rightarrow> bool" where
  "isdigit c = (c \<in> set ''0123456789'')"

definition digit_value :: "char \<Rightarrow> int" where
  "digit_value c = of_char c - 48"

definition atoi :: "string \<Rightarrow> int option" where
  "atoi nptr =
     (let s = dropWhile isspace nptr;
          negative = (take 1 s = ''-'');
          s = (if take 1 s = ''-'' \<or> take 1 s = ''+'' then drop 1 s else s);
          v = foldl (\<lambda>n c. 10 * n + digit_value c) 0 (takeWhile isdigit s);
          r = (if negative then - v else v)
      in if - (2 ^ 31) \<le> r \<and> r < 2 ^ 31 then Some r else None)"

definition PrintUsage :: "string \<Rightarrow> world \<Rightarrow> world" where
  "PrintUsage ExecutableName w =
     print_error (''Usage: '' @ ExecutableName
       @ ''  InputFileName.vtk  OutputFileName.raw  BinaryOutputFile'' @ newline
       @ ''BinaryOutputFile is optional, it can be either 0 or 1.'' @ newline) w"

definition EXIT_SUCCESS :: int where
  "EXIT_SUCCESS = 0"

text \<open>
  \<open>argv\<close> holds the program name and the arguments; \<open>argc\<close> is its length.  A run that
  returns from \<open>main\<close> ends with \<open>Inr\<close> of the returned status.  With an empty
  \<open>argv\<close> the usage text would be printed from a null program name.
\<close>

definition main :: "host \<Rightarrow> string list \<Rightarrow> world \<Rightarrow> (stop + int) \<times> world" where
  "main h argv w =
     (let argc = length argv
      in if argc = 0 then (Inl Undefined, w)
         else if argc < 3 then (Inl (Exit 0), PrintUsage (argv ! 0) w)
         else
           (case (if argc = 4
                  then (case atoi (argv ! 3) of
                          None \<Rightarrow> (Inl Undefined, w)
                        | Some BinaryOutputFileInt \<Rightarrow>
                            if BinaryOutputFileInt \<noteq> 0 \<and> BinaryOutputFileInt \<noteq> 1
                            then (Inl (Exit 1),
                                  print_error
                                    (''Binary option should be either 0 or 1.'' @ newline) w)
                            else (Inr (BinaryOutputFileInt \<noteq> 0), w))
                  else (Inr False, w)) of
              (Inl e, w) \<Rightarrow> (Inl e, w)
            | (Inr BinaryOutputFile, w) \<Rightarrow>
                (let InputFilename = argv ! 1;
                     OutputFilename = argv ! 2
                 in case ReadDataSetWriteToOutput h InputFilename OutputFilename
                           BinaryOutputFile w of
                      (Inl e, w) \<Rightarrow> (Inl e, w)
                    | (Inr u, w) \<Rightarrow> (Inr EXIT_SUCCESS, w))))"

section \<open>The matrix the program is meant to write\<close>

text \<open>
  The logical output as the data model of the specification words it: with \<open>m\<close> the
  number of tuples of the first array, a matrix of \<open>m\<close> rows; row \<open>r\<close> lists, array after
  array in the order of the set, the components \<open>0, 1, \<dots>\<close> of tuple \<open>r\<close> of the array.
\<close>

definition array_fields :: "vtkDataArray \<Rightarrow> nat \<Rightarrow> double list" where
  "array_fields a r =
     map (\<lambda>c. GetComponent a (of_nat r) (of_nat c)) [0 ..< unat (GetNumberOfComponents a)]"

definition OutputRow :: "vtkDataArray list \<Rightarrow> nat \<Rightarrow> double list" where
  "OutputRow A r = concat (map (\<lambda>a. array_fields a r) A)"

definition OutputMatrix :: "vtkDataArray list \<Rightarrow> double list list" where
  "OutputMatrix A =
     (case A of [] \<Rightarrow> [] | a # _ \<Rightarrow> map (OutputRow A) [0 ..< unat (GetNumberOfTuples a)])"

text \<open>Strings joined by a separator that stands between neighbours only.\<close>

fun join :: "string \<Rightarrow> string list \<Rightarrow> string" where
  "join sep [] = []"
| "join sep [x] = x"
| "join sep (x # y # ys) = x @ sep @ join sep (y # ys)"

text \<open>
  Reading a text file back: the pieces between the occurrences of a character, and a file
  as its lines, each line as its tab-separated fields.  The empty file has no line.
\<close>

fun split_on :: "char \<Rightarrow> string \<Rightarrow> string list" where
  "split_on c [] = [[]]"
| "split_on c (x # xs) =
     (if x = c then [] # split_on c xs
      else (case split_on c xs of [] \<Rightarrow> [[x]] | y # ys \<Rightarrow> (x # y) # ys))"

definition text_rows :: "string \<Rightarrow> string list list" where
  "text_rows s = (if s = [] then [] else map (split_on (CHR 0x09)) (split_on (CHR 0x0A) s))"

text \<open>The two files that hold a matrix: its text at a precision, and its raw doubles.\<close>

definition text_of :: "nat \<Rightarrow> double list list \<Rightarrow> string" where
  "text_of p M = join newline (map (\<lambda>row. join tab (map (format_g p) row)) M)"

definition binary_of :: "endian \<Rightarrow> double list list \<Rightarrow> string" where
  "binary_of e M = concat (map (object_representation e) (concat M))"

text \<open>The characters that the text of a double can contain.\<close>

definition numeric :: "char \<Rightarrow> bool" where
  "numeric c = (c \<in> set ''0123456789.+-einfa'')"

text \<open>
  Reading a binary file back: eight bytes make a double in the byte order of the host,
  and \<open>n\<close> doubles make a row.
\<close>

definition double_of_bytes :: "endian \<Rightarrow> string \<Rightarrow> double" where
  "double_of_bytes e bs =
     of_nat (foldr (\<lambda>b v. of_char b + 256 * v)
                   (case e of LittleEndian \<Rightarrow> bs | BigEndian \<Rightarrow> rev bs) 0)"

fun chunks :: "nat \<Rightarrow> 'a list \<Rightarrow> 'a list list" where
  "chunks k xs = (if k = 0 \<or> xs = [] then [] else take k xs # chunks k (drop k xs))"

declare chunks.simps [simp del]

definition binary_rows :: "endian \<Rightarrow> nat \<Rightarrow> string \<Rightarrow> double list list" where
  "binary_rows e n s = chunks n (map (double_of_bytes e) (chunks 8 s))"

text \<open>
  A valid array set, as the data model has it: at least one array, as many as an
  \<^verbatim>\<open>int\<close> can count, every array with at least one component and \<open>m\<close> tuples, and \<open>n\<close>
  components in all.
\<close>

definition valid_ArraySet :: "vtkDataArray list \<Rightarrow> nat \<Rightarrow> nat \<Rightarrow> bool" where
  "valid_ArraySet A m n =
     (A \<noteq> [] \<and> length A < 2 ^ 31
      \<and> list_all (\<lambda>a. unat (GetNumberOfTuples a) = m) A
      \<and> list_all (\<lambda>a. 0 < unat (GetNumberOfComponents a)) A
      \<and> sum_list (map (\<lambda>a. unat (GetNumberOfComponents a)) A) = n)"

text \<open>The report of the tuple check, and the part of a file name after its last dot.\<close>

definition inconsistent :: string where
  "inconsistent = ''Inconsistent file: number of tuples in arrays are not the same.'' @ newline"

definition extension :: "string \<Rightarrow> string" where
  "extension s = rev (takeWhile (\<lambda>c. c \<noteq> CHR ''.'') (rev s))"

section \<open>Concrete inputs\<close>

text \<open>An array that holds the given tuples, each of \<open>k\<close> components.\<close>

definition data_array :: "string \<Rightarrow> nat \<Rightarrow> double list list \<Rightarrow> vtkDataArray" where
  "data_array name k tuples =
     \<lparr>GetName = name, GetNumberOfComponents = of_nat k,
      GetNumberOfTuples = of_nat (length tuples),
      GetComponent = (\<lambda>t c. tuples ! unat t ! unat c)\<rparr>"

text \<open>The doubles 1 to 6, and the two doubles nearest to three tenths.\<close>

definition d1 :: double where "d1 = 0x3FF0000000000000"
definition d2 :: double where "d2 = 0x4000000000000000"
definition d3 :: double where "d3 = 0x4008000000000000"
definition d4 :: double where "d4 = 0x4010000000000000"
definition d5 :: double where "d5 = 0x4014000000000000"
definition d6 :: double where "d6 = 0x4018000000000000"
definition d03 :: double where "d03 = 0x3FD3333333333333"
definition d03' :: double where "d03' = 0x3FD3333333333334"

definition array_A :: vtkDataArray where
  "array_A = data_array ''A'' 2 [[d1, d2], [d3, d4]]"

definition array_B :: vtkDataArray where
  "array_B = data_array ''B'' 1 [[d5], [d6]]"

text \<open>Two arrays of one tuple of one component, which differ in the last bit of the value.\<close>

definition array_X :: vtkDataArray where
  "array_X = data_array ''X'' 1 [[d03]]"

definition array_Y :: vtkDataArray where
  "array_Y = data_array ''X'' 1 [[d03']]"

text \<open>An array of \<open>2^32\<close> tuples, every component zero.\<close>

definition huge_array :: vtkDataArray where
  "huge_array =
     \<lparr>GetName = ''huge'', GetNumberOfComponents = 1, GetNumberOfTuples = 4294967296,
      GetComponent = (\<lambda>t c. 0)\<rparr>"

text \<open>A stream as \<^verbatim>\<open>OpenFile\<close> leaves it.\<close>

definition fresh :: ofstream where
  "fresh = \<lparr>precision = DECIMAL_PRECISION, contents = []\<rparr>"

text \<open>A host on which every path can be opened and every input file holds the given point data.\<close>

definition host_with :: "endian \<Rightarrow> vtkPointData \<Rightarrow> host" where
  "host_with e P = \<lparr>byte_order = e, openable = (\<lambda>path. True), point_data = (\<lambda>type path. P)\<rparr>"


definition world0 :: world where
  "world0 = \<lparr>cerr = [], disk = Map.empty\<rparr>"

section \<open>Loops as folds\<close>

lemma unat_succ_below:
  fixes i n :: "'a::len word"
  assumes "i < n"
  shows "unat (i + 1) = Suc (unat i)"
proof -
  have a: "unat i < unat n" using assms by (simp add: word_less_nat_alt)
  have b: "unat n < 2 ^ LENGTH('a)" by (rule unsigned_less)
  have c: "unat (1::'a word) = 1" by simp
  from a b c have "unat i + unat (1::'a word) < 2 ^ LENGTH('a)" by linarith
  then have "unat (i + 1) = unat i + unat (1::'a word)"
    by (simp only: unat_add_lem)
  then show ?thesis by simp
qed

lemma for_loop_fold_aux:
  "unat n - unat i = k \<Longrightarrow> i \<le> n \<Longrightarrow>
   for_loop i n body s = fold body (map of_nat [unat i ..< unat n]) s"
proof (induction k arbitrary: i s)
  case 0
  then have "\<not> i < n" by (simp add: word_less_nat_alt word_le_nat_alt)
  moreover from 0 have "unat i = unat n" by (simp add: word_le_nat_alt)
  ultimately show ?case by (simp add: for_loop.simps)
next
  case (Suc k)
  then have lt: "i < n" by (simp add: word_less_nat_alt)
  then have s: "unat (i + 1) = Suc (unat i)" by (rule unat_succ_below)
  have le: "i + 1 \<le> n" using lt s by (simp add: word_le_nat_alt word_less_nat_alt)
  have "for_loop (i + 1) n body (body i s)
        = fold body (map of_nat [unat (i + 1) ..< unat n]) (body i s)"
    using Suc.prems s le by (intro Suc.IH) simp_all
  moreover have "[unat i ..< unat n] = unat i # [Suc (unat i) ..< unat n]"
    using lt by (simp add: word_less_nat_alt upt_conv_Cons)
  ultimately show ?case using lt s by (simp add: for_loop.simps [of i])
qed

lemma for_loop_fold:
  "for_loop 0 n body s = fold (\<lambda>j. body (of_nat j)) [0 ..< unat n] s"
  using for_loop_fold_aux [of n 0 "unat n" body s] by (simp add: fold_map comp_def)

lemma for_loop_zero: "for_loop 0 0 body s = s"
  by (simp add: for_loop.simps)

lemma put_string_put_string [simp]:
  "put_string (put_string f s) t = put_string f (s @ t)"
  by (simp add: put_string_def)

lemma put_string_Nil [simp]: "put_string f [] = f"
  by (simp add: put_string_def)

lemma contents_put_string [simp]: "contents (put_string f s) = contents f @ s"
  by (simp add: put_string_def)

lemma precision_put_string [simp]: "precision (put_string f s) = precision f"
  by (simp add: put_string_def)

lemma put_string_write [simp]: "write_double e f v = put_string f (object_representation e v)"
  by (simp add: write_double_def)

lemma fold_put_string:
  assumes "\<And>j f. j < k \<Longrightarrow> precision f = p \<Longrightarrow> body j f = put_string f (x j)"
    and "precision f = p"
  shows "fold body [0 ..< k] f = put_string f (concat (map x [0 ..< k]))"
  using assms by (induction k) simp_all

lemma for_loop_concat:
  fixes n :: "'a::len word"
  assumes "\<And>j f. j < unat n \<Longrightarrow> precision f = p
             \<Longrightarrow> body (of_nat j) f = put_string f (x j)"
    and "precision f = p"
  shows "for_loop 0 n body f = put_string f (concat (map x [0 ..< unat n]))"
  unfolding for_loop_fold using assms by (rule fold_put_string)

subsection \<open>Joining and splitting\<close>

lemma join_snoc: "join sep (xs @ [y]) = concat (map (\<lambda>x. x @ sep) xs) @ y"
  by (induction sep xs rule: join.induct) simp_all

lemma concat_sep_join:
  "concat (map (\<lambda>j. x j @ (if Suc j < k then sep else [])) [0 ..< k])
   = join sep (map x [0 ..< k])"
proof (cases k)
  case 0
  then show ?thesis by simp
next
  case (Suc m)
  have "map (\<lambda>j. x j @ (if Suc j < Suc m then sep else [])) [0 ..< m]
        = map (\<lambda>j. x j @ sep) [0 ..< m]"
    by (rule map_cong) simp_all
  then have "concat (map (\<lambda>j. x j @ (if Suc j < Suc m then sep else [])) [0 ..< m])
               = concat (map (\<lambda>j. x j @ sep) [0 ..< m])"
    by (rule arg_cong)
  then show ?thesis using Suc by (simp add: join_snoc comp_def)
qed

lemma for_loop_join:
  fixes n :: "'a::len word"
  assumes "\<And>j f. j < unat n \<Longrightarrow> precision f = p \<Longrightarrow>
             body (of_nat j) f = put_string f (x j @ (if Suc j < unat n then sep else []))"
    and "precision f = p"
  shows "for_loop 0 n body f = put_string f (join sep (map x [0 ..< unat n]))"
  using for_loop_concat [of n p body "\<lambda>j. x j @ (if Suc j < unat n then sep else [])" f] assms
  by (simp add: concat_sep_join)

lemma join_Cons: "join sep (x # xs) = x @ concat (map ((@) sep) xs)"
  by (induction xs arbitrary: x) simp_all

lemma join_append:
  "xs \<noteq> [] \<Longrightarrow> ys \<noteq> [] \<Longrightarrow> join sep (xs @ ys) = join sep xs @ sep @ join sep ys"
  by (cases xs; cases ys) (simp_all add: join_Cons)

lemma join_join:
  "\<forall>xs \<in> set xss. xs \<noteq> [] \<Longrightarrow> join sep (map (join sep) xss) = join sep (concat xss)"
proof (induction xss)
  case Nil
  then show ?case by simp
next
  case (Cons xs xss)
  show ?case
  proof (cases xss)
    case Nil
    then show ?thesis by simp
  next
    case (Cons ys yss)
    with Cons.prems have ne: "xs \<noteq> []" "concat xss \<noteq> []" by auto
    have "join sep (map (join sep) (xs # xss)) = join sep xs @ sep @ join sep (map (join sep) xss)"
      using Cons by simp
    also have "\<dots> = join sep xs @ sep @ join sep (concat xss)"
      using Cons.IH Cons.prems by simp
    also have "\<dots> = join sep (concat (xs # xss))"
      using ne by (simp add: join_append)
    finally show ?thesis .
  qed
qed

lemma set_join: "set (join sep xs) \<subseteq> set sep \<union> \<Union> (set ` set xs)"
  by (induction sep xs rule: join.induct) auto

lemma join_eq_Nil: "join sep xs = [] \<Longrightarrow> xs = [] \<or> (\<exists>x \<in> set xs. x = [])"
  by (induction sep xs rule: join.induct) auto

lemma split_on_nonempty [simp]: "split_on c s \<noteq> []"
  by (induction s) (auto split: list.splits)

lemma split_on_plain: "c \<notin> set x \<Longrightarrow> split_on c x = [x]"
  by (induction x) auto

lemma split_on_append: "c \<notin> set x \<Longrightarrow> split_on c (x @ c # rest) = x # split_on c rest"
  by (induction x) (auto split: list.splits)

lemma split_on_join:
  "xs \<noteq> [] \<Longrightarrow> \<forall>x \<in> set xs. c \<notin> set x \<Longrightarrow> split_on c (join [c] xs) = xs"
proof (induction "[c]" xs rule: join.induct)
  case 1
  then show ?case by simp
next
  case (2 x)
  then show ?case by (simp add: split_on_plain)
next
  case (3 x y ys)
  then show ?case by (simp add: split_on_append)
qed

lemma concat_map_concat:
  "concat (map f (concat xss)) = concat (map (\<lambda>xs. concat (map f xs)) xss)"
  by (induction xss) simp_all

lemma map_nth_fun: "map (\<lambda>i. g (A ! i)) [0 ..< length A] = map g A"
  by (rule nth_equalityI) simp_all

lemma length_concat_const:
  "\<forall>x \<in> set xs. length x = k \<Longrightarrow> length (concat xs) = length xs * k"
  by (induction xs) simp_all

subsection \<open>Counters and indices\<close>

lemma unat_of_nat_index:
  fixes n :: "'a::len word"
  assumes "j < unat n"
  shows "unat (of_nat j :: 'a word) = j"
  using assms by (intro le_unat_uoi [of _ n]) simp

lemma word_less_pred:
  fixes n :: "'a::len word"
  assumes "j < unat n"
  shows "(of_nat j < n - 1) = (Suc j < unat n)"
proof -
  from assms have "n \<noteq> 0" by (auto simp: unat_gt_0 [symmetric])
  then have p: "unat (n - 1) = unat n - 1" by (simp add: unat_minus_one)
  have "unat (of_nat j :: 'a word) = j" using assms by (rule unat_of_nat_index)
  then show ?thesis using p assms by (auto simp: word_less_nat_alt)
qed

lemma unat_length32:
  "length (A :: 'a list) < 2 ^ 32 \<Longrightarrow> unat (of_nat (length A) :: 32 word) = length A"
  by (simp add: unat_of_nat)

lemma index32:
  "i < length (A :: 'a list) \<Longrightarrow> length A < 2 ^ 32 \<Longrightarrow> unat (of_nat i :: 32 word) = i"
  by (simp add: unat_of_nat)

section \<open>The text of a double\<close>

lemma digit_numeric: "numeric (digit n)"
proof -
  have "n mod 10 < length ''0123456789''" by simp
  then have "''0123456789'' ! (n mod 10) \<in> set ''0123456789''" by (rule nth_mem)
  then show ?thesis unfolding digit_def numeric_def by auto
qed

lemma digits_numeric: "list_all numeric (digits k n)"
proof (induction k n rule: digits.induct)
  case (1 k n)
  then show ?case
    by (cases "k = 0") (simp_all add: digits.simps [of k] digits.simps [of 0] digit_numeric)
qed

lemma length_digits [simp]: "length (digits k n) = k"
proof (induction k n rule: digits.induct)
  case (1 k n)
  then show ?case by (cases "k = 0") (simp_all add: digits.simps [of k] digits.simps [of 0])
qed

lemma list_all_take: "list_all P xs \<Longrightarrow> list_all P (take k xs)"
  by (auto simp: list_all_iff dest: in_set_takeD)

lemma list_all_drop: "list_all P xs \<Longrightarrow> list_all P (drop k xs)"
  by (auto simp: list_all_iff dest: in_set_dropD)

lemma strip_zeros_all: "list_all P xs \<Longrightarrow> list_all P (strip_zeros xs)"
  by (auto simp: list_all_iff strip_zeros_def dest: set_dropWhileD)

lemma numeric_chars [simp]:
  "numeric CHR ''e''" "numeric CHR ''+''" "numeric CHR ''-''" "numeric CHR ''.''"
  "numeric CHR ''0''" "numeric CHR ''i''" "numeric CHR ''n''" "numeric CHR ''f''"
  "numeric CHR ''a''" "\<not> numeric (CHR 0x09)" "\<not> numeric (CHR 0x0A)"
  by (simp_all add: numeric_def)

lemma digits_nonempty:
  assumes "0 < k"
  shows "digits k n \<noteq> []"
proof
  assume "digits k n = []"
  then have "length (digits k n) = 0" by (simp only: list.size)
  with assms show False by simp
qed

lemma with_point_numeric:
  "list_all numeric ip \<Longrightarrow> list_all numeric fp \<Longrightarrow> list_all numeric (with_point ip fp)"
  by (simp add: with_point_def strip_zeros_all)

lemma with_point_nonempty: "ip \<noteq> [] \<Longrightarrow> with_point ip fp \<noteq> []"
  by (simp add: with_point_def)

lemma layout_g_numeric: "list_all numeric (layout_g P S X)"
proof -
  have r: "list_all numeric (replicate k CHR ''0'')" for k
    by (simp add: list_all_iff)
  have z: "list_all numeric ''0''" by simp
  have p: "list_all numeric (with_point (take k (digits P S)) (drop k (digits P S)))" for k
    by (intro with_point_numeric list_all_take list_all_drop digits_numeric)
  have q: "list_all numeric (with_point ''0'' (replicate k CHR ''0'' @ digits P S))" for k
    using r [of k] digits_numeric [of P S] by (intro with_point_numeric z) simp
  show ?thesis
    unfolding layout_g_def Let_def using p q by (simp add: digits_numeric)
qed

lemma layout_g_nonempty:
  assumes "0 < P"
  shows "layout_g P S X \<noteq> []"
proof -
  have "take (Suc k) (digits P S) \<noteq> []" for k
    using digits_nonempty [OF assms, of S] by simp
  then have "with_point (take (Suc k) (digits P S)) fp \<noteq> []" for k fp
    by (intro with_point_nonempty)
  moreover have "with_point ''0'' fp \<noteq> []" for fp
    by (intro with_point_nonempty) simp
  ultimately show ?thesis
    unfolding layout_g_def Let_def by simp
qed

lemma format_g_cases:
  assumes "P = (if p = 0 then 1 else p)"
  shows "format_g p v =
     (if sign_bit v then ''-'' else [])
     @ (if biased_exponent v = 2047 then (if fraction v = 0 then ''inf'' else ''nan'')
        else if fst (magnitude v) = 0 then ''0''
        else (case significand P (fst (magnitude v)) (snd (magnitude v))
              of (S, X) \<Rightarrow> layout_g P S X))"
  unfolding assms by (simp add: format_g_def Let_def)

lemma format_g_numeric: "list_all numeric (format_g p v)"
proof -
  define P where "P = (if p = 0 then 1 else p)"
  have 1: "list_all numeric (if sign_bit v then ''-'' else [])" by simp
  have 2: "list_all numeric
     (if biased_exponent v = 2047 then (if fraction v = 0 then ''inf'' else ''nan'')
      else if fst (magnitude v) = 0 then ''0''
      else (case significand P (fst (magnitude v)) (snd (magnitude v))
            of (S, X) \<Rightarrow> layout_g P S X))"
    by (simp add: layout_g_numeric split: prod.splits)
  show ?thesis
    unfolding format_g_cases [OF P_def] using 1 2 by (simp only: list_all_append simp_thms)
qed

lemma format_g_nonempty: "format_g p v \<noteq> []"
proof -
  define P where "P = (if p = 0 then 1 else p)"
  have "0 < P" by (simp add: P_def)
  then have "layout_g P S X \<noteq> []" for S X
    by (rule layout_g_nonempty)
  then have "(if biased_exponent v = 2047 then (if fraction v = 0 then ''inf'' else ''nan'')
      else if fst (magnitude v) = 0 then ''0''
      else (case significand P (fst (magnitude v)) (snd (magnitude v))
            of (S, X) \<Rightarrow> layout_g P S X)) \<noteq> []"
    by (simp split: prod.splits)
  then show ?thesis
    unfolding format_g_cases [OF P_def] by (simp only: append_is_Nil_conv simp_thms)
qed

lemma format_g_no_separator:
  "CHR 0x09 \<notin> set (format_g p v)" "CHR 0x0A \<notin> set (format_g p v)"
  using format_g_numeric [of p v] by (auto simp: list_all_iff)

section \<open>What the two writers put on the stream\<close>

lemma length_array_fields [simp]:
  "length (array_fields a r) = unat (GetNumberOfComponents a)"
  by (simp add: array_fields_def)

lemma length_OutputRow:
  "length (OutputRow A r) = sum_list (map (\<lambda>a. unat (GetNumberOfComponents a)) A)"
  by (simp add: OutputRow_def length_concat comp_def)

lemma OutputMatrix_nonempty:
  "A \<noteq> [] \<Longrightarrow> OutputMatrix A = map (OutputRow A) [0 ..< unat (GetNumberOfTuples (A ! 0))]"
  by (cases A) (simp_all add: OutputMatrix_def)

lemma length_OutputMatrix:
  "A \<noteq> [] \<Longrightarrow> length (OutputMatrix A) = unat (GetNumberOfTuples (hd A))"
  by (cases A) (simp_all add: OutputMatrix_def)

lemma rows_OutputMatrix:
  "row \<in> set (OutputMatrix A)
   \<Longrightarrow> length row = sum_list (map (\<lambda>a. unat (GetNumberOfComponents a)) A)"
  by (cases A) (auto simp: OutputMatrix_def length_OutputRow)

lemma ascii_component_step:
  assumes "i < length A" "length A < 2 ^ 32" "j < unat (GetNumberOfComponents (A ! i))"
    and "precision f = p"
  shows "ascii_component A (map GetNumberOfComponents A) D (of_nat r) (of_nat i) (of_nat j) f
         = put_string f (format_g p (array_fields (A ! i) r ! j)
                          @ (if Suc j < unat (GetNumberOfComponents (A ! i)) then D else []))"
  using assms
  by (simp add: ascii_component_def put_double_def index32 word_less_pred array_fields_def)

lemma ascii_array_step:
  assumes "i < length A" "length A < 2 ^ 32" "precision f = p"
  shows "ascii_array A (of_nat (length A)) (map GetNumberOfComponents A) D (of_nat r) (of_nat i) f
         = put_string f (join D (map (format_g p) (array_fields (A ! i) r))
                          @ (if Suc i < length A then D else []))"
proof -
  let ?n = "GetNumberOfComponents (A ! i)"
  have "for_loop 0 ?n (ascii_component A (map GetNumberOfComponents A) D (of_nat r) (of_nat i)) f
        = put_string f (join D (map (\<lambda>j. format_g p (array_fields (A ! i) r ! j))
                                  [0 ..< unat ?n]))"
    using assms by (intro for_loop_join [where p = p] ascii_component_step) simp_all
  moreover have "map (\<lambda>j. format_g p (array_fields (A ! i) r ! j)) [0 ..< unat ?n]
                 = map (format_g p) (array_fields (A ! i) r)"
    by (simp add: array_fields_def)
  moreover have "(of_nat i < (of_nat (length A) :: 32 word) - 1) = (Suc i < length A)"
    using assms word_less_pred [of i "of_nat (length A) :: 32 word"] by (simp add: unat_length32)
  ultimately show ?thesis using assms by (simp add: ascii_array_def index32)
qed

lemma ascii_tuple_step:
  assumes "length A < 2 ^ 32" "precision f = p" "r < unat n"
  shows "ascii_tuple A (of_nat (length A)) (map GetNumberOfComponents A) D n (of_nat r) f
         = put_string f (join D (map (\<lambda>a. join D (map (format_g p) (array_fields a r))) A)
                          @ (if Suc r < unat n then newline else []))"
proof -
  let ?g = "\<lambda>a. join D (map (format_g p) (array_fields a r))"
  have "for_loop 0 (of_nat (length A) :: 32 word)
          (ascii_array A (of_nat (length A)) (map GetNumberOfComponents A) D (of_nat r)) f
        = put_string f (join D (map (\<lambda>i. ?g (A ! i))
                                  [0 ..< unat (of_nat (length A) :: 32 word)]))"
    using assms by (intro for_loop_join [where p = p]) (simp_all add: ascii_array_step unat_length32)
  moreover have "map (\<lambda>i. ?g (A ! i)) [0 ..< length A] = map ?g A"
    by (rule map_nth_fun)
  ultimately show ?thesis using assms
    by (simp add: ascii_tuple_def unat_length32 word_less_pred endl_def)
qed

lemma WriteArraysToASCIIFile_nested:
  assumes "length A < 2 ^ 32" "A \<noteq> []"
  shows "WriteArraysToASCIIFile f A (of_nat (length A)) (map GetNumberOfComponents A)
         = put_string f (join newline
             (map (\<lambda>r. join tab (map (\<lambda>a. join tab (map (format_g (precision f))
                                                       (array_fields a r))) A))
                [0 ..< unat (GetNumberOfTuples (hd A))]))"
  using assms
  by (simp add: WriteArraysToASCIIFile_def hd_conv_nth
      for_loop_join [where p = "precision f"] ascii_tuple_step)

lemma WriteArraysToASCIIFile_eq:
  assumes "length A < 2 ^ 32" "A \<noteq> []" "\<forall>a \<in> set A. GetNumberOfComponents a \<noteq> 0"
  shows "WriteArraysToASCIIFile f A (of_nat (length A)) (map GetNumberOfComponents A)
         = put_string f (join newline
             (map (\<lambda>row. join tab (map (format_g (precision f)) row)) (OutputMatrix A)))"
proof -
  have ne: "\<forall>xs \<in> set (map (\<lambda>a. map (format_g (precision f)) (array_fields a r)) A). xs \<noteq> []"
    for r
    using assms(3) by (auto simp: array_fields_def unat_gt_0)
  have "join tab (map (\<lambda>a. join tab (map (format_g (precision f)) (array_fields a r))) A)
        = join tab (map (format_g (precision f)) (OutputRow A r))" for r
    using join_join [OF ne, of tab r] by (simp add: OutputRow_def map_concat comp_def)
  then show ?thesis using assms(1,2)
    by (simp add: WriteArraysToASCIIFile_nested OutputMatrix_nonempty hd_conv_nth comp_def)
qed

lemma binary_array_step:
  assumes "i < length A" "length A < 2 ^ 32"
  shows "binary_array e A (map GetNumberOfComponents A) (of_nat r) (of_nat i) f
         = put_string f (concat (map (object_representation e) (array_fields (A ! i) r)))"
proof -
  let ?n = "GetNumberOfComponents (A ! i)"
  have "for_loop 0 ?n (binary_component e A (of_nat r) (of_nat i)) f
        = put_string f (concat (map (\<lambda>j. object_representation e (array_fields (A ! i) r ! j))
                                  [0 ..< unat ?n]))"
    using assms
    by (intro for_loop_concat [where p = "precision f"])
       (simp_all add: binary_component_def index32 array_fields_def)
  moreover have "map (\<lambda>j. object_representation e (array_fields (A ! i) r ! j)) [0 ..< unat ?n]
                 = map (object_representation e) (array_fields (A ! i) r)"
    by (simp add: array_fields_def)
  ultimately show ?thesis using assms by (simp add: binary_array_def index32)
qed

lemma binary_tuple_step:
  assumes "length A < 2 ^ 32"
  shows "binary_tuple e A (of_nat (length A)) (map GetNumberOfComponents A) (of_nat r) f
         = put_string f (concat (map (object_representation e) (OutputRow A r)))"
proof -
  let ?g = "\<lambda>a. concat (map (object_representation e) (array_fields a r))"
  have "for_loop 0 (of_nat (length A) :: 32 word)
          (binary_array e A (map GetNumberOfComponents A) (of_nat r)) f
        = put_string f (concat (map (\<lambda>i. ?g (A ! i))
                                  [0 ..< unat (of_nat (length A) :: 32 word)]))"
    using assms
    by (intro for_loop_concat [where p = "precision f"])
       (simp_all add: binary_array_step unat_length32)
  moreover have "map (\<lambda>i. ?g (A ! i)) [0 ..< length A] = map ?g A"
    by (rule map_nth_fun)
  ultimately have "binary_tuple e A (of_nat (length A)) (map GetNumberOfComponents A) (of_nat r) f
        = put_string f (concat (map ?g A))"
    using assms by (simp only: binary_tuple_def unat_length32)
  then show ?thesis by (simp only: OutputRow_def concat_map_concat map_map comp_def)
qed

lemma WriteArraysToBinaryFile_eq:
  assumes "length A < 2 ^ 32" "A \<noteq> []"
  shows "WriteArraysToBinaryFile e f A (of_nat (length A)) (map GetNumberOfComponents A)
         = put_string f (concat (map (object_representation e) (concat (OutputMatrix A))))"
proof -
  let ?g = "\<lambda>row. concat (map (object_representation e) row)"
  have "for_loop 0 (GetNumberOfTuples (A ! 0))
          (binary_tuple e A (of_nat (length A)) (map GetNumberOfComponents A)) f
        = put_string f (concat (map (\<lambda>r. ?g (OutputRow A r))
                                  [0 ..< unat (GetNumberOfTuples (A ! 0))]))"
    using assms
    by (intro for_loop_concat [where p = "precision f"]) (simp_all add: binary_tuple_step)
  then have "WriteArraysToBinaryFile e f A (of_nat (length A)) (map GetNumberOfComponents A)
        = put_string f (concat (map ?g (OutputMatrix A)))"
    using assms(2) by (simp add: WriteArraysToBinaryFile_def OutputMatrix_nonempty comp_def)
  then show ?thesis by (simp only: concat_map_concat)
qed

text \<open>With no tuple in the first array neither writer touches the stream.\<close>

lemma writers_zero_tuples:
  assumes "GetNumberOfTuples (A ! 0) = 0"
  shows "WriteArraysToASCIIFile f A N C = f" "WriteArraysToBinaryFile e f A N C = f"
  using assms
  by (simp_all add: WriteArraysToASCIIFile_def WriteArraysToBinaryFile_def for_loop_zero)

section \<open>The checks before the file is opened\<close>

lemma check_arrays_done:
  "\<not> i < N \<Longrightarrow> check_arrays P N i acc w = (Inr acc, w)"
  by (cases acc) (simp add: check_arrays.simps)

lemma check_arrays_Inr_aux:
  assumes "unat N - unat i = k" "i \<le> N" "unat N \<le> length P"
    and "check_arrays P N i (As, Cs, Ts, Col) w = (Inr (As', Cs', Ts', Col'), w')"
  shows "w' = w \<and> (\<exists>Bs. As' = As @ Bs \<and> Cs' = Cs @ map GetNumberOfComponents Bs
            \<and> map Some Bs = drop (unat i) (take (unat N) P))"
  using assms
proof (induction k arbitrary: i As Cs Ts Col)
  case 0
  then have eq: "unat i = unat N" by (simp add: word_le_nat_alt)
  then have "\<not> i < N" by (simp add: word_less_nat_alt)
  with 0 show ?case by (simp add: check_arrays_done eq)
next
  case (Suc k)
  then have lt: "i < N" by (simp add: word_less_nat_alt)
  then have s: "unat (i + 1) = Suc (unat i)" by (rule unat_succ_below)
  have le: "i + 1 \<le> N" using lt s by (simp add: word_le_nat_alt word_less_nat_alt)
  have inb: "unat i < unat N" using lt by (simp add: word_less_nat_alt)
  from Suc.prems(4) lt obtain a where a: "P ! unat i = Some a"
    by (cases "P ! unat i") (simp_all add: check_arrays.simps [of _ _ i])
  from Suc.prems(4) lt a
  have rec: "check_arrays P N (i + 1)
          (As @ [a], Cs @ [GetNumberOfComponents a], Ts @ [ucast (GetNumberOfTuples a)],
           Col + GetNumberOfComponents a) w = (Inr (As', Cs', Ts', Col'), w')"
    by (simp add: check_arrays.simps [of _ _ i] Let_def split: if_splits)
  have "unat N - unat (i + 1) = k" using Suc.prems(1) s by simp
  from Suc.IH [OF this le Suc.prems(3) rec]
  obtain Bs where w: "w' = w" and Bs: "As' = (As @ [a]) @ Bs"
      "Cs' = (Cs @ [GetNumberOfComponents a]) @ map GetNumberOfComponents Bs"
      "map Some Bs = drop (unat (i + 1)) (take (unat N) P)"
    by blast
  have "drop (unat i) (take (unat N) P)
        = take (unat N) P ! unat i # drop (Suc (unat i)) (take (unat N) P)"
    using inb Suc.prems(3) by (intro Cons_nth_drop_Suc [symmetric]) simp
  then have "map Some (a # Bs) = drop (unat i) (take (unat N) P)"
    using Bs(3) s a inb by simp
  with w Bs(1,2) show ?case by (intro conjI exI [of _ "a # Bs"]) simp_all
qed

lemma check_arrays_Inr:
  assumes "check_arrays P N 0 ([], [], [], 0) w = (Inr (As, Cs, Ts, Col), w')"
    and "unat N \<le> length P"
  shows "w' = w \<and> Cs = map GetNumberOfComponents As \<and> map Some As = take (unat N) P"
  using check_arrays_Inr_aux [OF refl _ assms(2) assms(1)] by auto

lemma check_arrays_disk:
  "disk (snd (check_arrays P N i acc w)) = disk w"
proof (induction P N i acc w rule: check_arrays.induct)
  case (1 P N i As Cs Ts Col w)
  show ?case
  proof (cases "i < N")
    case False
    then show ?thesis by (simp add: check_arrays.simps)
  next
    case True
    show ?thesis
    proof (cases "P ! unat i")
      case None
      with True show ?thesis by (simp add: check_arrays.simps [of _ _ i] print_error_def)
    next
      case (Some a)
      with True 1 show ?thesis
        by (simp add: check_arrays.simps [of _ _ i] Let_def print_error_def)
    qed
  qed
qed

text \<open>
  A run of \<^verbatim>\<open>WriteArraysToOutputFile\<close> that returns has found every slot filled, has
  opened the file, and leaves in it what the writer of the mode put on a fresh stream.
\<close>

lemma unat_length_le: "unat (of_nat (length P) :: 32 word) \<le> length P"
  by (simp add: unat_of_nat)

lemma WriteArraysToOutputFile_returns:
  assumes "WriteArraysToOutputFile h P fn b w = (Inr u, w')"
  obtains As where
    "map Some As = take (unat (of_nat (length P) :: 32 word)) P" "As \<noteq> []" "openable h fn"
    "w' = w\<lparr>disk := (disk w)(fn \<mapsto> contents
       (if b = False
        then WriteArraysToASCIIFile fresh As (of_nat (length P)) (map GetNumberOfComponents As)
        else WriteArraysToBinaryFile (byte_order h) fresh As (of_nat (length P))
               (map GetNumberOfComponents As)))\<rparr>"
proof -
  let ?N = "of_nat (length P) :: 32 word"
  from assms have pos: "\<not> sint ?N < 1"
    by (auto simp: WriteArraysToOutputFile_def Let_def)
  then have "?N \<noteq> 0" by auto
  then have n0: "0 < unat ?N" by (simp add: unat_gt_0)
  from assms pos obtain As Cs Ts Col w1 where
    chk: "check_arrays P ?N 0 ([], [], [], 0) w = (Inr (As, Cs, Ts, Col), w1)"
    by (cases "check_arrays P ?N 0 ([], [], [], 0) w")
       (auto simp: WriteArraysToOutputFile_def Let_def split: sum.splits)
  from check_arrays_Inr [OF chk unat_length_le]
  have w1: "w1 = w" and Cs: "Cs = map GetNumberOfComponents As"
    and As: "map Some As = take (unat ?N) P" by simp_all
  have ne: "As \<noteq> []"
  proof
    assume "As = []"
    with As have "take (unat ?N) P = []" by simp
    with n0 have "P = []" by (simp add: take_eq_Nil)
    with n0 show False by simp
  qed
  from assms pos chk w1 Cs have op: "openable h fn"
    by (auto simp: WriteArraysToOutputFile_def Let_def OpenFile_def split: if_splits)
  from assms pos chk w1 Cs op
  have "w' = w\<lparr>disk := (disk w)(fn \<mapsto> contents
       (if b = False
        then WriteArraysToASCIIFile fresh As ?N (map GetNumberOfComponents As)
        else WriteArraysToBinaryFile (byte_order h) fresh As ?N
               (map GetNumberOfComponents As)))\<rparr>"
    by (auto simp: WriteArraysToOutputFile_def Let_def OpenFile_def fresh_def)
  with As ne op show thesis by (rule that)
qed

text \<open>
  The loop of checks on point data without a null slot: it passes when every tuple count,
  cut to 32 bits, equals that of the first array, and ends the run with \<^verbatim>\<open>exit(1)\<close>
  otherwise.
\<close>

lemma check_arrays_pass:
  assumes "unat N = length P" "drop (unat i) P = map Some Bs" "length Ts = unat i"
    and "\<forall>b \<in> set Bs. ucast (GetNumberOfTuples b) = t0" "0 < i \<longrightarrow> Ts ! 0 = t0"
  shows "\<exists>Ts' Col'. check_arrays P N i (As, Cs, Ts, Col) w
           = (Inr (As @ Bs, Cs @ map GetNumberOfComponents Bs, Ts', Col'), w)"
  using assms(2-)
proof (induction Bs arbitrary: i As Cs Ts Col)
  case Nil
  then have "\<not> i < N" using assms(1) by (simp add: word_less_nat_alt)
  then show ?case by (simp add: check_arrays_done)
next
  case (Cons b Bs)
  from Cons.prems(1) have inb: "unat i < length P"
    by (cases "unat i < length P") simp_all
  then have lt: "i < N" using assms(1) by (simp add: word_less_nat_alt)
  then have s: "unat (i + 1) = Suc (unat i)" by (rule unat_succ_below)
  from Cons.prems(1) have "drop (unat i) P = Some b # map Some Bs" by simp
  then have b: "P ! unat i = Some b" by (rule nth_via_drop)
  from Cons.prems(1) inb have rest: "drop (unat (i + 1)) P = map Some Bs"
    by (simp add: s Cons_nth_drop_Suc [symmetric])
  let ?T = "Ts @ [ucast (GetNumberOfTuples b) :: 32 word]"
  have ti: "?T ! unat i = t0" using Cons.prems(2,3) by (simp add: nth_append)
  have t0: "?T ! 0 = t0"
  proof (cases "i = 0")
    case True
    with Cons.prems(2,3) show ?thesis by simp
  next
    case False
    then have "0 < i" by (simp add: word_gt_0)
    moreover from this have "0 < unat i" by (simp add: word_less_nat_alt)
    ultimately show ?thesis using Cons.prems(2,4) by (simp add: nth_append)
  qed
  have "\<exists>Ts' Col'. check_arrays P N (i + 1)
          (As @ [b], Cs @ [GetNumberOfComponents b], ?T, Col + GetNumberOfComponents b) w
        = (Inr ((As @ [b]) @ Bs, (Cs @ [GetNumberOfComponents b]) @ map GetNumberOfComponents Bs,
                Ts', Col'), w)"
    using rest Cons.prems(2,3) t0 s by (intro Cons.IH) simp_all
  then show ?case using lt b ti t0 by (simp add: check_arrays.simps [of _ _ i] Let_def)
qed

lemma check_arrays_mismatch:
  assumes "unat N = length P" "drop (unat i) P = map Some Bs" "length Ts = unat i"
    and "\<exists>b \<in> set Bs. ucast (GetNumberOfTuples b) \<noteq> t0" "0 < i \<longrightarrow> Ts ! 0 = t0"
    and "i = 0 \<longrightarrow> ucast (GetNumberOfTuples (hd Bs)) = t0"
  shows "check_arrays P N i (As, Cs, Ts, Col) w = (Inl (Exit 1), print_error inconsistent w)"
  using assms(2-)
proof (induction Bs arbitrary: i As Cs Ts Col)
  case Nil
  then show ?case by simp
next
  case (Cons b Bs)
  from Cons.prems(1) have inb: "unat i < length P"
    by (cases "unat i < length P") simp_all
  then have lt: "i < N" using assms(1) by (simp add: word_less_nat_alt)
  then have s: "unat (i + 1) = Suc (unat i)" by (rule unat_succ_below)
  from s have nz: "i + 1 \<noteq> 0" by (auto simp: unat_eq_zero [symmetric] simp del: unat_eq_zero)
  from Cons.prems(1) have "drop (unat i) P = Some b # map Some Bs" by simp
  then have b: "P ! unat i = Some b" by (rule nth_via_drop)
  from Cons.prems(1) inb have rest: "drop (unat (i + 1)) P = map Some Bs"
    by (simp add: s Cons_nth_drop_Suc [symmetric])
  let ?T = "Ts @ [ucast (GetNumberOfTuples b) :: 32 word]"
  have ti: "?T ! unat i = ucast (GetNumberOfTuples b)" using Cons.prems(2) by (simp add: nth_append)
  show ?case
  proof (cases "ucast (GetNumberOfTuples b) = t0")
    case False
    with Cons.prems(5) have pos: "0 < i" by (auto simp: word_gt_0)
    then have "0 < unat i" by (simp add: word_less_nat_alt)
    with pos Cons.prems(2,4) have "?T ! 0 = t0" by (simp add: nth_append)
    with False ti pos lt b show ?thesis
      by (simp add: check_arrays.simps [of _ _ i] Let_def inconsistent_def)
  next
    case True
    have t0: "?T ! 0 = t0"
    proof (cases "i = 0")
      case True
      with Cons.prems(2) \<open>ucast (GetNumberOfTuples b) = t0\<close> show ?thesis by simp
    next
      case False
      then have "0 < i" by (simp add: word_gt_0)
      moreover from this have "0 < unat i" by (simp add: word_less_nat_alt)
      ultimately show ?thesis using Cons.prems(2,4) by (simp add: nth_append)
    qed
    from True Cons.prems(3) have ex: "\<exists>b \<in> set Bs. ucast (GetNumberOfTuples b) \<noteq> t0" by auto
    have "check_arrays P N (i + 1)
            (As @ [b], Cs @ [GetNumberOfComponents b], ?T, Col + GetNumberOfComponents b) w
          = (Inl (Exit 1), print_error inconsistent w)"
      using rest Cons.prems(2) ex t0 s nz by (intro Cons.IH) simp_all
    then show ?thesis using lt b ti t0 True
      by (simp add: check_arrays.simps [of _ _ i] Let_def)
  qed
qed

lemma sint_length:
  assumes "length (A :: 'a list) < 2 ^ 31"
  shows "sint (of_nat (length A) :: 32 word) = int (length A)"
proof -
  have "signed_take_bit 31 (int (length A)) = int (length A)"
    using assms by (intro signed_take_bit_int_eq_self) simp_all
  then show ?thesis by (simp add: signed_of_nat)
qed

lemma WriteArraysToOutputFile_empty:
  "WriteArraysToOutputFile h [] fn b w
   = (Inl (Exit 1), print_error (''DataSet has no array.'' @ newline) w)"
  by (simp add: WriteArraysToOutputFile_def)

lemma WriteArraysToOutputFile_inconsistent:
  assumes "A \<noteq> []" "length A < 2 ^ 31"
    and "\<exists>a \<in> set A. (ucast (GetNumberOfTuples a) :: 32 word) \<noteq> ucast (GetNumberOfTuples (hd A))"
  shows "WriteArraysToOutputFile h (map Some A) fn b w
         = (Inl (Exit 1), print_error inconsistent w)"
proof -
  let ?N = "of_nat (length (map Some A)) :: 32 word"
  have n: "unat ?N = length (map Some A)" using assms(2) by (simp add: unat_of_nat)
  have pos: "\<not> sint ?N < 1" using assms(1,2) sint_length [OF assms(2)] by simp
  have "check_arrays (map Some A) ?N 0 ([], [], [], 0) w
        = (Inl (Exit 1), print_error inconsistent w)"
    using n assms(3) by (intro check_arrays_mismatch [where Bs = A]) simp_all
  with pos show ?thesis by (simp add: WriteArraysToOutputFile_def)
qed

lemma WriteArraysToOutputFile_consistent:
  assumes "A \<noteq> []" "length A < 2 ^ 31" "openable h fn"
    and "\<forall>a \<in> set A. (ucast (GetNumberOfTuples a) :: 32 word) = ucast (GetNumberOfTuples (hd A))"
  shows "WriteArraysToOutputFile h (map Some A) fn b w
         = (Inr (), w\<lparr>disk := (disk w)(fn \<mapsto> contents
             (if b = False
              then WriteArraysToASCIIFile fresh A (of_nat (length A)) (map GetNumberOfComponents A)
              else WriteArraysToBinaryFile (byte_order h) fresh A (of_nat (length A))
                     (map GetNumberOfComponents A)))\<rparr>)"
proof -
  let ?N = "of_nat (length (map Some A)) :: 32 word"
  have n: "unat ?N = length (map Some A)" using assms(2) by (simp add: unat_of_nat)
  have pos: "\<not> sint ?N < 1" using assms(1,2) sint_length [OF assms(2)] by simp
  have "\<exists>Ts Col. check_arrays (map Some A) ?N 0 ([], [], [], 0) w
        = (Inr ([] @ A, [] @ map GetNumberOfComponents A, Ts, Col), w)"
    using n assms(4)
    by (intro check_arrays_pass [where ?t0.0 = "ucast (GetNumberOfTuples (hd A))"]) simp_all
  then obtain Ts Col where "check_arrays (map Some A) ?N 0 ([], [], [], 0) w
        = (Inr (A, map GetNumberOfComponents A, Ts, Col), w)"
    by auto
  with pos assms(3) show ?thesis
    by (simp add: WriteArraysToOutputFile_def OpenFile_def fresh_def)
qed

text \<open>A run of \<^verbatim>\<open>WriteArraysToOutputFile\<close> that does not return leaves the disk as it was.\<close>

lemma failed_run_leaves_disk:
  assumes "WriteArraysToOutputFile h P fn b w = (Inl e, w')"
  shows "disk w' = disk w"
proof -
  let ?N = "of_nat (length P) :: 32 word"
  show ?thesis
  proof (cases "sint ?N < 1")
    case True
    with assms show ?thesis by (auto simp: WriteArraysToOutputFile_def print_error_def Let_def)
  next
    case False
    obtain r w1 where chk: "check_arrays P ?N 0 ([], [], [], 0) w = (r, w1)"
      by (cases "check_arrays P ?N 0 ([], [], [], 0) w")
    have d: "disk w1 = disk w"
      using check_arrays_disk [of P ?N 0 "([], [], [], 0)" w] chk by simp
    show ?thesis
    proof (cases r)
      case (Inl e')
      with assms False chk d show ?thesis by (auto simp: WriteArraysToOutputFile_def Let_def)
    next
      case (Inr c)
      with assms False chk d show ?thesis
        by (cases c) (auto simp: WriteArraysToOutputFile_def OpenFile_def print_error_def
            Let_def split: if_splits)
    qed
  qed
qed



text \<open>Point data with a null slot never gets past the checks.\<close>

lemma null_slot_never_returns:
  assumes "None \<in> set P" "length P < 2 ^ 32"
  shows "fst (WriteArraysToOutputFile h P fn b w) \<noteq> Inr u"
proof
  assume "fst (WriteArraysToOutputFile h P fn b w) = Inr u"
  then have "WriteArraysToOutputFile h P fn b w = (Inr u, snd (WriteArraysToOutputFile h P fn b w))"
    by (metis prod.collapse)
  then obtain As where "map Some As = take (unat (of_nat (length P) :: 32 word)) P"
    by (rule WriteArraysToOutputFile_returns)
  with assms(2) have "map Some As = P" by (simp add: unat_of_nat)
  with assms(1) show False by auto
qed

section \<open>Reading the files back\<close>

lemma chunks_concat:
  assumes "0 < k" "\<forall>xs \<in> set xss. length xs = k"
  shows "chunks k (concat xss) = xss"
  using assms(2)
proof (induction xss)
  case Nil
  then show ?case by (simp add: chunks.simps)
next
  case (Cons xs xss)
  then have "xs \<noteq> []" using assms(1) by auto
  with Cons assms(1) show ?case by (simp add: chunks.simps [of k "xs @ concat xss"])
qed

lemma bytes_value:
  "foldr (\<lambda>b v. of_char b + 256 * v) (map (\<lambda>k. char_of (n div 256 ^ k)) [0 ..< j]) 0
   = (n :: nat) mod 256 ^ j"
proof (induction j arbitrary: n)
  case 0
  then show ?case by simp
next
  case (Suc j)
  have "[0 ..< Suc j] = 0 # map Suc [0 ..< j]"
    by (simp only: map_Suc_upt upt_conv_Cons [of 0 "Suc j"] zero_less_Suc)
  then have "foldr (\<lambda>b v. of_char b + 256 * v)
               (map (\<lambda>k. char_of (n div 256 ^ k)) [0 ..< Suc j]) 0
             = n mod 256 + 256 * foldr (\<lambda>b v. of_char b + 256 * v)
                 (map (\<lambda>k. char_of ((n div 256) div 256 ^ k)) [0 ..< j]) 0"
    by (simp add: comp_def div_mult2_eq)
  also have "\<dots> = n mod 256 + 256 * ((n div 256) mod 256 ^ j)"
    by (simp only: Suc.IH)
  also have "\<dots> = n mod 256 ^ Suc j"
    by (simp add: mod_mult2_eq)
  finally show ?case .
qed

lemma double_of_bytes_object_representation:
  "double_of_bytes e (object_representation e d) = d"
proof -
  have "unat d < 2 ^ 64" using unsigned_less [of d] by simp
  then have "unat d mod 256 ^ 8 = unat d" by simp
  then have "of_nat (foldr (\<lambda>b v. of_char b + 256 * v)
                (map (\<lambda>k. char_of (unat d div 256 ^ k)) [0 ..< 8]) 0) = d"
    by (simp only: bytes_value) simp
  then show ?thesis
    by (cases e) (simp_all add: double_of_bytes_def object_representation_def)
qed

lemma length_object_representation [simp]: "length (object_representation e d) = 8"
  by (cases e) (simp_all add: object_representation_def)

lemma binary_rows_matrix:
  assumes "0 < n" "\<forall>row \<in> set M. length row = n"
  shows "binary_rows e n (concat (map (object_representation e) (concat M))) = M"
proof -
  have "chunks 8 (concat (map (object_representation e) (concat M)))
        = map (object_representation e) (concat M)"
    by (rule chunks_concat) simp_all
  then have "binary_rows e n (concat (map (object_representation e) (concat M)))
             = chunks n (concat M)"
    by (simp add: binary_rows_def comp_def double_of_bytes_object_representation)
  also have "\<dots> = M" using assms by (rule chunks_concat)
  finally show ?thesis .
qed

lemma text_rows_matrix:
  assumes "\<forall>row \<in> set M. row \<noteq> []"
  shows "text_rows (join newline (map (\<lambda>row. join tab (map (format_g p) row)) M))
         = map (map (format_g p)) M"
proof (cases "M = []")
  case True
  then show ?thesis by (simp add: text_rows_def)
next
  case False
  let ?line = "\<lambda>row. join tab (map (format_g p) row)"
  let ?text = "join newline (map ?line M)"
  have line_ne: "?line row \<noteq> []" if "row \<in> set M" for row
  proof
    assume "?line row = []"
    then have "map (format_g p) row = [] \<or> (\<exists>x \<in> set (map (format_g p) row). x = [])"
      by (rule join_eq_Nil)
    with that assms show False
      using format_g_nonempty [of p] format_g_nonempty [of p, symmetric] by auto
  qed
  have text_ne: "?text \<noteq> []"
  proof
    assume "?text = []"
    then have "map ?line M = [] \<or> (\<exists>x \<in> set (map ?line M). x = [])"
      by (rule join_eq_Nil)
    with False line_ne line_ne [symmetric] show False by auto
  qed
  have no_nl: "CHR 0x0A \<notin> set (?line row)" for row
    using set_join [of tab "map (format_g p) row"] format_g_no_separator(2) [of p]
    by (auto simp: tab_def)
  have "split_on (CHR 0x0A) ?text = map ?line M"
    unfolding newline_def using False no_nl by (intro split_on_join) auto
  moreover have "split_on (CHR 0x09) (?line row) = map (format_g p) row" if "row \<in> set M" for row
    unfolding tab_def using that assms format_g_no_separator(1) [of p]
    by (intro split_on_join) auto
  ultimately show ?thesis using text_ne by (simp add: text_rows_def)
qed

lemma valid_ArraySet_facts:
  assumes "valid_ArraySet A m n"
  shows "A \<noteq> []" "length A < 2 ^ 32" "\<forall>a \<in> set A. GetNumberOfComponents a \<noteq> 0"
    "unat (GetNumberOfTuples (hd A)) = m" "0 < n"
    "length (OutputMatrix A) = m" "\<forall>row \<in> set (OutputMatrix A). length row = n"
proof -
  from assms show ne: "A \<noteq> []" and "length A < 2 ^ 32"
    by (simp_all add: valid_ArraySet_def)
  from assms show c: "\<forall>a \<in> set A. GetNumberOfComponents a \<noteq> 0"
    by (auto simp: valid_ArraySet_def list_all_iff)
  from assms ne show m: "unat (GetNumberOfTuples (hd A)) = m"
    by (auto simp: valid_ArraySet_def list_all_iff)
  from assms have s: "sum_list (map (\<lambda>a. unat (GetNumberOfComponents a)) A) = n"
    by (simp add: valid_ArraySet_def)
  from ne c have "0 < unat (GetNumberOfComponents (hd A))" by (simp add: unat_gt_0)
  moreover have "unat (GetNumberOfComponents (hd A))
                 \<le> sum_list (map (\<lambda>a. unat (GetNumberOfComponents a)) A)"
    using ne by (cases A) simp_all
  ultimately show "0 < n" using s by simp
  from ne m show "length (OutputMatrix A) = m" by (simp add: length_OutputMatrix)
  from s show "\<forall>row \<in> set (OutputMatrix A). length row = n"
    by (auto dest: rows_OutputMatrix)
qed

section \<open>The dispatch on the file name\<close>








section \<open>Lemmas for the claims\<close>

lemma length_split_on: "length (split_on c s) = Suc (length (filter (\<lambda>x. x = c) s))"
  by (induction s) (auto split: list.splits)

lemma last_join_aux:
  "xs \<noteq> [] \<Longrightarrow> last xs \<noteq> []
   \<Longrightarrow> join sep xs \<noteq> [] \<and> last (join sep xs) = last (last xs)"
  by (induction sep xs rule: join.induct) auto

lemma last_join:
  "xs \<noteq> [] \<Longrightarrow> last xs \<noteq> [] \<Longrightarrow> last (join sep xs) = last (last xs)"
  by (simp add: last_join_aux)

lemma length_binary_of: "length (binary_of e M) = length (concat M) * 8"
proof -
  have "length (concat (map (object_representation e) xs)) = length xs * 8" for xs
    by (induction xs) simp_all
  then show ?thesis by (simp only: binary_of_def)
qed

lemma text_of_newlines:
  assumes "\<forall>row \<in> set M. row \<noteq> []"
  shows "length (filter (\<lambda>c. c = CHR 0x0A) (text_of p M)) = length M - 1"
proof (cases "M = []")
  case True
  then show ?thesis by (simp add: text_of_def)
next
  case False
  have "text_rows (text_of p M) = map (map (format_g p)) M"
    unfolding text_of_def using assms by (rule text_rows_matrix)
  moreover have "text_of p M \<noteq> []"
  proof
    assume "text_of p M = []"
    with calculation False show False by (simp add: text_rows_def)
  qed
  ultimately have "length (split_on (CHR 0x0A) (text_of p M)) = length M"
    by (auto simp: text_rows_def dest: arg_cong [where f = length])
  then show ?thesis by (simp add: length_split_on)
qed

lemma text_of_last:
  assumes "\<forall>row \<in> set M. row \<noteq> []" "M \<noteq> []"
  shows "last (text_of p M) \<noteq> CHR 0x0A"
proof -
  let ?line = "\<lambda>row. join tab (map (format_g p) row)"
  from assms have row: "last M \<noteq> []" by simp
  then have f: "last (map (format_g p) (last M)) \<noteq> []"
    by (simp add: last_map format_g_nonempty)
  with row have l: "last (?line (last M)) = last (format_g p (last (last M)))"
    by (simp add: last_join last_map)
  have "?line (last M) \<noteq> []"
  proof
    assume "?line (last M) = []"
    then have "map (format_g p) (last M) = [] \<or> (\<exists>x \<in> set (map (format_g p) (last M)). x = [])"
      by (rule join_eq_Nil)
    with row show False
      using format_g_nonempty [of p] format_g_nonempty [of p, symmetric] by auto
  qed
  with assms(2) have "last (text_of p M) = last (?line (last M))"
    by (simp add: text_of_def last_join last_map)
  with l have "last (text_of p M) \<in> set (format_g p (last (last M)))"
    using format_g_nonempty [of p "last (last M)"] by simp
  then show ?thesis using format_g_no_separator(2) [of p "last (last M)"] by auto
qed

lemma valid_rows_nonempty:
  assumes "valid_ArraySet A m n"
  shows "\<forall>row \<in> set (OutputMatrix A). row \<noteq> []"
  using valid_ArraySet_facts(5,7) [OF assms] by auto

lemmas run_defs =
  WriteArraysToOutputFile_def OpenFile_def WriteArraysToASCIIFile_def
  WriteArraysToBinaryFile_def ascii_tuple_def ascii_array_def ascii_component_def
  binary_tuple_def binary_array_def binary_component_def put_double_def put_string_def
  endl_def write_double_def print_error_def host_with_def world0_def data_array_def
  fresh_def DECIMAL_PRECISION_def tab_def newline_def

lemmas format_defs =
  format_g_def layout_g_def sign_bit_def biased_exponent_def fraction_def magnitude_def
  significand_def decimal_exponent_def round_div_def with_point_def strip_zeros_def
  ndigits.simps digits.simps digit_def decimal_def

lemma valid_A_B: "valid_ArraySet [array_A, array_B] 2 3"
  by (simp add: valid_ArraySet_def array_A_def array_B_def data_array_def)

section \<open>The claims\<close>

subsection \<open>C1: the layout of the text output\<close>

text \<open>
  C1.  For a valid array set of \<open>m\<close> tuples and \<open>n\<close> components in all, the text writer
  appends to the stream the rows of the output matrix, each row as its \<open>n\<close> fields with one
  tab between neighbours (inside an array and from one array to the next alike), the rows
  with one newline between neighbours and none after the last.  Read back, the text has
  \<open>m\<close> lines of \<open>n\<close> fields; it holds \<open>m - 1\<close> newlines and does not end in one.
\<close>

theorem text_output_layout:
  assumes "valid_ArraySet A m n"
  shows "contents (WriteArraysToASCIIFile f A (of_nat (length A)) (map GetNumberOfComponents A))
           = contents f @ text_of (precision f) (OutputMatrix A)
       \<and> length (OutputMatrix A) = m
       \<and> list_all (\<lambda>row. length row = n) (OutputMatrix A)
       \<and> text_rows (text_of (precision f) (OutputMatrix A))
           = map (map (format_g (precision f))) (OutputMatrix A)
       \<and> length (filter (\<lambda>c. c = CHR 0x0A) (text_of (precision f) (OutputMatrix A))) = m - 1
       \<and> (0 < m \<longrightarrow> last (text_of (precision f) (OutputMatrix A)) \<noteq> CHR 0x0A)"
proof -
  note v = valid_ArraySet_facts [OF assms]
  note ne = valid_rows_nonempty [OF assms]
  have "WriteArraysToASCIIFile f A (of_nat (length A)) (map GetNumberOfComponents A)
        = put_string f (text_of (precision f) (OutputMatrix A))"
    unfolding text_of_def using v(2,1,3) by (rule WriteArraysToASCIIFile_eq)
  then have 1: "contents (WriteArraysToASCIIFile f A (of_nat (length A))
                  (map GetNumberOfComponents A))
                = contents f @ text_of (precision f) (OutputMatrix A)"
    by simp
  have 3: "list_all (\<lambda>row. length row = n) (OutputMatrix A)"
    using v(7) by (simp add: list_all_iff)
  have 4: "text_rows (text_of (precision f) (OutputMatrix A))
           = map (map (format_g (precision f))) (OutputMatrix A)"
    unfolding text_of_def using ne by (rule text_rows_matrix)
  have 5: "length (filter (\<lambda>c. c = CHR 0x0A) (text_of (precision f) (OutputMatrix A))) = m - 1"
    using text_of_newlines [OF ne] v(6) by simp
  have 6: "0 < m \<longrightarrow> last (text_of (precision f) (OutputMatrix A)) \<noteq> CHR 0x0A"
    using text_of_last [OF ne] v(6) by auto
  from 1 v(6) 3 4 5 6 show ?thesis by blast
qed

theorem text_output_layout_witness:
  "valid_ArraySet [array_A, array_B] 2 3
   \<and> contents (WriteArraysToASCIIFile fresh [array_A, array_B]
        (of_nat (length [array_A, array_B])) (map GetNumberOfComponents [array_A, array_B]))
       = contents fresh @ text_of (precision fresh) (OutputMatrix [array_A, array_B])
   \<and> length (OutputMatrix [array_A, array_B]) = 2
   \<and> list_all (\<lambda>row. length row = 3) (OutputMatrix [array_A, array_B])
   \<and> text_rows (text_of (precision fresh) (OutputMatrix [array_A, array_B]))
       = map (map (format_g (precision fresh))) (OutputMatrix [array_A, array_B])
   \<and> length (filter (\<lambda>c. c = CHR 0x0A)
        (text_of (precision fresh) (OutputMatrix [array_A, array_B]))) = 2 - 1
   \<and> last (text_of (precision fresh) (OutputMatrix [array_A, array_B])) \<noteq> CHR 0x0A"
proof -
  note t = text_output_layout [OF valid_A_B, of fresh]
  have "0 < (2::nat)" by simp
  with t valid_A_B show ?thesis by blast
qed

subsection \<open>C2: the layout of the binary output\<close>

text \<open>
  C2.  For a valid array set of \<open>m\<close> tuples and \<open>n\<close> components in all, the binary writer
  appends to the stream the doubles of the output matrix, row after row, each as the eight
  bytes of its object representation and nothing else: \<open>m * n * 8\<close> bytes, from which the
  matrix is read back exactly.  The text writer puts out the fields of the same matrix in
  the same order.
\<close>

theorem binary_output_layout:
  assumes "valid_ArraySet A m n"
  shows "contents (WriteArraysToBinaryFile e f A (of_nat (length A))
                     (map GetNumberOfComponents A))
           = contents f @ binary_of e (OutputMatrix A)
       \<and> length (concat (OutputMatrix A)) = m * n
       \<and> length (binary_of e (OutputMatrix A)) = m * n * 8
       \<and> binary_rows e n (binary_of e (OutputMatrix A)) = OutputMatrix A
       \<and> contents (WriteArraysToASCIIFile f A (of_nat (length A))
                     (map GetNumberOfComponents A))
           = contents f @ text_of (precision f) (OutputMatrix A)"
proof -
  note v = valid_ArraySet_facts [OF assms]
  have "WriteArraysToBinaryFile e f A (of_nat (length A)) (map GetNumberOfComponents A)
        = put_string f (binary_of e (OutputMatrix A))"
    unfolding binary_of_def using v(2,1) by (rule WriteArraysToBinaryFile_eq)
  then have 1: "contents (WriteArraysToBinaryFile e f A (of_nat (length A))
                  (map GetNumberOfComponents A))
                = contents f @ binary_of e (OutputMatrix A)"
    by simp
  have 2: "length (concat (OutputMatrix A)) = m * n"
    using length_concat_const [OF v(7)] v(6) by simp
  have "length (binary_of e (OutputMatrix A)) = length (concat (OutputMatrix A)) * 8"
    by (rule length_binary_of)
  with 2 have 3: "length (binary_of e (OutputMatrix A)) = m * n * 8" by simp
  have 4: "binary_rows e n (binary_of e (OutputMatrix A)) = OutputMatrix A"
    unfolding binary_of_def using v(5,7) by (rule binary_rows_matrix)
  have "WriteArraysToASCIIFile f A (of_nat (length A)) (map GetNumberOfComponents A)
        = put_string f (text_of (precision f) (OutputMatrix A))"
    unfolding text_of_def using v(2,1,3) by (rule WriteArraysToASCIIFile_eq)
  then have 5: "contents (WriteArraysToASCIIFile f A (of_nat (length A))
                  (map GetNumberOfComponents A))
                = contents f @ text_of (precision f) (OutputMatrix A)"
    by simp
  from 1 2 3 4 5 show ?thesis by blast
qed

theorem binary_output_layout_witness:
  "valid_ArraySet [array_A, array_B] 2 3
   \<and> contents (WriteArraysToBinaryFile LittleEndian fresh [array_A, array_B]
        (of_nat (length [array_A, array_B])) (map GetNumberOfComponents [array_A, array_B]))
       = contents fresh @ binary_of LittleEndian (OutputMatrix [array_A, array_B])
   \<and> length (concat (OutputMatrix [array_A, array_B])) = 2 * 3
   \<and> length (binary_of LittleEndian (OutputMatrix [array_A, array_B])) = 2 * 3 * 8
   \<and> binary_rows LittleEndian 3 (binary_of LittleEndian (OutputMatrix [array_A, array_B]))
       = OutputMatrix [array_A, array_B]
   \<and> contents (WriteArraysToASCIIFile fresh [array_A, array_B]
        (of_nat (length [array_A, array_B])) (map GetNumberOfComponents [array_A, array_B]))
       = contents fresh @ text_of (precision fresh) (OutputMatrix [array_A, array_B])"
  by (rule conjI [OF valid_A_B binary_output_layout [OF valid_A_B]])

subsection \<open>C3: the scenario of two arrays\<close>


subsection \<open>C4: the checks on the tuple counts\<close>

text \<open>
  C4.  Empty point data ends the run with \<^verbatim>\<open>exit(1)\<close> before the file is opened.  But the
  tuple counts are compared as \<^verbatim>\<open>unsigned int\<close>, so a count is compared modulo \<open>2^32\<close>:
  an array of no tuple followed by an array of \<open>4294967296\<close> tuples passes the check, the
  file is opened and the run returns.
\<close>

theorem tuple_counts_compared_modulo_2_32:
  "GetNumberOfTuples (data_array ''none'' 1 []) \<noteq> GetNumberOfTuples huge_array
   \<and> WriteArraysToOutputFile (host_with LittleEndian [])
        [Some (data_array ''none'' 1 []), Some huge_array] ''out.raw'' False world0
     = (Inr (), world0\<lparr>disk := (disk world0)(''out.raw'' \<mapsto> [])\<rparr>)"
  by (simp add: run_defs check_arrays.simps for_loop.simps huge_array_def)

subsection \<open>C5: text against binary\<close>

text \<open>
  C5 as the code has it.  For a valid array set the two outputs hold the same values in the
  same order: the binary file read back as rows of \<open>n\<close> doubles is the output matrix
  itself, and the text file read back as tab-separated fields holds, field by field, the
  text at 16 significant digits of the doubles read from the binary file.
\<close>

theorem text_renders_binary:
  assumes "valid_ArraySet A m n"
  shows "binary_rows e n (contents (WriteArraysToBinaryFile e fresh A (of_nat (length A))
                                      (map GetNumberOfComponents A)))
           = OutputMatrix A
       \<and> text_rows (contents (WriteArraysToASCIIFile fresh A (of_nat (length A))
                                 (map GetNumberOfComponents A)))
           = map (map (format_g 16))
               (binary_rows e n (contents (WriteArraysToBinaryFile e fresh A
                  (of_nat (length A)) (map GetNumberOfComponents A))))"
proof -
  note v = valid_ArraySet_facts [OF assms]
  note ne = valid_rows_nonempty [OF assms]
  have "WriteArraysToBinaryFile e fresh A (of_nat (length A)) (map GetNumberOfComponents A)
        = put_string fresh (binary_of e (OutputMatrix A))"
    unfolding binary_of_def using v(2,1) by (rule WriteArraysToBinaryFile_eq)
  then have b: "contents (WriteArraysToBinaryFile e fresh A (of_nat (length A))
                  (map GetNumberOfComponents A)) = binary_of e (OutputMatrix A)"
    by (simp add: fresh_def)
  have "WriteArraysToASCIIFile fresh A (of_nat (length A)) (map GetNumberOfComponents A)
        = put_string fresh (text_of (precision fresh) (OutputMatrix A))"
    unfolding text_of_def using v(2,1,3) by (rule WriteArraysToASCIIFile_eq)
  then have t: "contents (WriteArraysToASCIIFile fresh A (of_nat (length A))
                  (map GetNumberOfComponents A)) = text_of 16 (OutputMatrix A)"
    by (simp add: fresh_def DECIMAL_PRECISION_def)
  have 1: "binary_rows e n (binary_of e (OutputMatrix A)) = OutputMatrix A"
    unfolding binary_of_def using v(5,7) by (rule binary_rows_matrix)
  have 2: "text_rows (text_of 16 (OutputMatrix A)) = map (map (format_g 16)) (OutputMatrix A)"
    unfolding text_of_def using ne by (rule text_rows_matrix)
  from 1 2 show ?thesis unfolding b t by simp
qed

lemma valid_X_Y: "valid_ArraySet [array_X] 1 1" "valid_ArraySet [array_Y] 1 1"
  by (simp_all add: valid_ArraySet_def array_X_def array_Y_def data_array_def)

theorem text_renders_binary_witness:
  "valid_ArraySet [array_A, array_B] 2 3
   \<and> binary_rows BigEndian 3 (contents (WriteArraysToBinaryFile BigEndian fresh
        [array_A, array_B] (of_nat (length [array_A, array_B]))
        (map GetNumberOfComponents [array_A, array_B])))
       = OutputMatrix [array_A, array_B]
   \<and> text_rows (contents (WriteArraysToASCIIFile fresh [array_A, array_B]
        (of_nat (length [array_A, array_B])) (map GetNumberOfComponents [array_A, array_B])))
       = map (map (format_g 16))
           (binary_rows BigEndian 3 (contents (WriteArraysToBinaryFile BigEndian fresh
              [array_A, array_B] (of_nat (length [array_A, array_B]))
              (map GetNumberOfComponents [array_A, array_B]))))"
  by (rule conjI [OF valid_A_B text_renders_binary [OF valid_A_B]])

text \<open>
  The claim as it was made fails: sixteen digits do not tell every double from its
  neighbour.  The two doubles nearest to three tenths both print as \<open>0.3\<close>, so the two
  array sets that hold one or the other have the same text file and different binary
  files, and no reading of the text can return both values.
\<close>

lemma three_tenths: "format_g 16 d03 = ''0.3''" "format_g 16 d03' = ''0.3''"
  by (simp_all add: format_defs Let_def d03_def d03'_def)

theorem text_renders_binary_counterexample:
  "valid_ArraySet [array_X] 1 1 \<and> valid_ArraySet [array_Y] 1 1
   \<and> contents (WriteArraysToASCIIFile fresh [array_X] 1 [1]) = ''0.3''
   \<and> contents (WriteArraysToASCIIFile fresh [array_Y] 1 [1]) = ''0.3''
   \<and> binary_rows LittleEndian 1 (contents (WriteArraysToBinaryFile LittleEndian fresh
        [array_X] 1 [1])) = [[d03]]
   \<and> binary_rows LittleEndian 1 (contents (WriteArraysToBinaryFile LittleEndian fresh
        [array_Y] 1 [1])) = [[d03']]
   \<and> d03 \<noteq> d03'"
proof -
  have t: "contents (WriteArraysToASCIIFile fresh [array_X] 1 [1]) = ''0.3''"
    "contents (WriteArraysToASCIIFile fresh [array_Y] 1 [1]) = ''0.3''"
    by (simp_all add: run_defs for_loop.simps array_X_def array_Y_def three_tenths)
  have b: "contents (WriteArraysToBinaryFile LittleEndian fresh [array_X] 1 [1])
           = binary_of LittleEndian [[d03]]"
    "contents (WriteArraysToBinaryFile LittleEndian fresh [array_Y] 1 [1])
           = binary_of LittleEndian [[d03']]"
    by (simp_all add: run_defs for_loop.simps array_X_def array_Y_def binary_of_def)
  have r: "binary_rows LittleEndian 1 (binary_of LittleEndian [[d]]) = [[d]]" for d
    unfolding binary_of_def by (rule binary_rows_matrix) simp_all
  have d: "d03 \<noteq> d03'" by (simp add: d03_def d03'_def)
  from valid_X_Y t d show ?thesis unfolding b r by simp
qed

lemma no_exact_text_parser:
  "\<not> (\<exists>parse. \<forall>A m n. valid_ArraySet A m n \<longrightarrow>
        parse (contents (WriteArraysToASCIIFile fresh A (of_nat (length A))
                           (map GetNumberOfComponents A)))
        = binary_rows LittleEndian n
            (contents (WriteArraysToBinaryFile LittleEndian fresh A (of_nat (length A))
                         (map GetNumberOfComponents A))))"
proof
  assume "\<exists>parse. \<forall>A m n. valid_ArraySet A m n \<longrightarrow>
        parse (contents (WriteArraysToASCIIFile fresh A (of_nat (length A))
                           (map GetNumberOfComponents A)))
        = binary_rows LittleEndian n
            (contents (WriteArraysToBinaryFile LittleEndian fresh A (of_nat (length A))
                         (map GetNumberOfComponents A)))"
  then obtain parse where p: "\<And>A m n. valid_ArraySet A m n \<Longrightarrow>
        parse (contents (WriteArraysToASCIIFile fresh A (of_nat (length A))
                           (map GetNumberOfComponents A)))
        = binary_rows LittleEndian n
            (contents (WriteArraysToBinaryFile LittleEndian fresh A (of_nat (length A))
                         (map GetNumberOfComponents A)))"
    by blast
  have t: "contents (WriteArraysToASCIIFile fresh [array_X] 1 [1]) = ''0.3''"
    "contents (WriteArraysToASCIIFile fresh [array_Y] 1 [1]) = ''0.3''"
    by (simp_all add: run_defs for_loop.simps array_X_def array_Y_def three_tenths)
  have b: "contents (WriteArraysToBinaryFile LittleEndian fresh [array_X] 1 [1])
           = binary_of LittleEndian [[d03]]"
    "contents (WriteArraysToBinaryFile LittleEndian fresh [array_Y] 1 [1])
           = binary_of LittleEndian [[d03']]"
    by (simp_all add: run_defs for_loop.simps array_X_def array_Y_def binary_of_def)
  have r: "binary_rows LittleEndian 1 (binary_of LittleEndian [[d]]) = [[d]]" for d
    unfolding binary_of_def by (rule binary_rows_matrix) simp_all
  have c: "GetNumberOfComponents array_X = 1" "GetNumberOfComponents array_Y = 1"
    by (simp_all add: array_X_def array_Y_def data_array_def)
  from p [OF valid_X_Y(1)]
  have "parse (contents (WriteArraysToASCIIFile fresh [array_X] 1 [1]))
        = binary_rows LittleEndian 1
            (contents (WriteArraysToBinaryFile LittleEndian fresh [array_X] 1 [1]))"
    by (simp add: c)
  then have x: "parse ''0.3'' = [[d03]]" unfolding t b r .
  from p [OF valid_X_Y(2)]
  have "parse (contents (WriteArraysToASCIIFile fresh [array_Y] 1 [1]))
        = binary_rows LittleEndian 1
            (contents (WriteArraysToBinaryFile LittleEndian fresh [array_Y] 1 [1]))"
    by (simp add: c)
  then have y: "parse ''0.3'' = [[d03']]" unfolding t b r .
  from x y have "d03 = d03'" by simp
  then show False by (simp add: d03_def d03'_def)
qed

subsection \<open>C6: determinism\<close>



subsection \<open>C7: a null slot\<close>

text \<open>
  C7.  A null slot does not end the run with an error.  The program reports it on
  \<^verbatim>\<open>std::cerr\<close> and goes on to call \<^verbatim>\<open>GetNumberOfComponents\<close> through the null
  pointer: for point data of one null slot the run ends in undefined behaviour, with the
  report written and the disk untouched.
\<close>

theorem null_slot_is_dereferenced:
  "WriteArraysToOutputFile h [None] fn b w
   = (Inl Undefined, w\<lparr>cerr := cerr w @ ''Array 0 is NULL.'' @ newline\<rparr>)"
  by (simp add: WriteArraysToOutputFile_def check_arrays.simps print_error_def decimal_def
      ndigits.simps digits.simps digit_def)

subsection \<open>C8: the command line\<close>

text \<open>
  C8 as the code has it.  With the program name alone or one argument, the usage text is
  printed and the run ends with status 0.  The flag is read only when there are exactly
  three arguments: a flag that \<^verbatim>\<open>atoi\<close> reads as an \<^verbatim>\<open>int\<close> other than 0 and 1 ends
  the run with status 1 and the report that the option should be 0 or 1; a flag read as 0
  is the same as no flag, the text mode; a flag read as 1 selects the binary mode.  Further
  arguments are not an error: with more than three arguments the run is the one of the
  first two, in text mode.
\<close>

theorem command_line:
  "(length argv = 1 \<or> length argv = 2
      \<longrightarrow> main h argv w = (Inl (Exit 0), PrintUsage (argv ! 0) w))
   \<and> (length argv = 3
      \<longrightarrow> main h argv w =
          (case ReadDataSetWriteToOutput h (argv ! 1) (argv ! 2) False w of
             (Inl e, w') \<Rightarrow> (Inl e, w') | (Inr u, w') \<Rightarrow> (Inr EXIT_SUCCESS, w')))
   \<and> (length argv = 4 \<and> atoi (argv ! 3) = Some v \<and> v \<noteq> 0 \<and> v \<noteq> 1
      \<longrightarrow> main h argv w =
          (Inl (Exit 1), print_error (''Binary option should be either 0 or 1.'' @ newline) w))
   \<and> (length argv = 4 \<and> atoi (argv ! 3) = Some 0
      \<longrightarrow> main h argv w = main h (take 3 argv) w)
   \<and> (length argv = 4 \<and> atoi (argv ! 3) = Some 1
      \<longrightarrow> main h argv w =
          (case ReadDataSetWriteToOutput h (argv ! 1) (argv ! 2) True w of
             (Inl e, w') \<Rightarrow> (Inl e, w') | (Inr u, w') \<Rightarrow> (Inr EXIT_SUCCESS, w')))
   \<and> (4 < length argv \<longrightarrow> main h argv w = main h (take 3 argv) w)"
proof -
  have 1: "length argv = 1 \<or> length argv = 2
      \<longrightarrow> main h argv w = (Inl (Exit 0), PrintUsage (argv ! 0) w)"
    by (auto simp: main_def Let_def)
  have 2: "length argv = 3
      \<longrightarrow> main h argv w =
          (case ReadDataSetWriteToOutput h (argv ! 1) (argv ! 2) False w of
             (Inl e, w') \<Rightarrow> (Inl e, w') | (Inr u, w') \<Rightarrow> (Inr EXIT_SUCCESS, w'))"
    by (auto simp: main_def Let_def)
  have 3: "length argv = 4 \<and> atoi (argv ! 3) = Some v \<and> v \<noteq> 0 \<and> v \<noteq> 1
      \<longrightarrow> main h argv w =
          (Inl (Exit 1), print_error (''Binary option should be either 0 or 1.'' @ newline) w)"
    by (auto simp: main_def Let_def)
  have 4: "length argv = 4 \<and> atoi (argv ! 3) = Some 0
      \<longrightarrow> main h argv w = main h (take 3 argv) w"
    by (auto simp: main_def Let_def)
  have 5: "length argv = 4 \<and> atoi (argv ! 3) = Some 1
      \<longrightarrow> main h argv w =
          (case ReadDataSetWriteToOutput h (argv ! 1) (argv ! 2) True w of
             (Inl e, w') \<Rightarrow> (Inl e, w') | (Inr u, w') \<Rightarrow> (Inr EXIT_SUCCESS, w'))"
    by (auto simp: main_def Let_def)
  have 6: "4 < length argv \<longrightarrow> main h argv w = main h (take 3 argv) w"
    by (auto simp: main_def Let_def)
  from 1 2 3 4 5 6 show ?thesis by blast
qed

lemma atoi_flags:
  "atoi ''0'' = Some 0" "atoi ''1'' = Some 1" "atoi ''2'' = Some 2" "atoi ''abc'' = Some 0"
  by (simp_all add: atoi_def isspace_def isdigit_def digit_value_def)

theorem command_line_witness:
  "length [''vtk2raw'', ''in.vtk''] = 2
   \<and> main (host_with LittleEndian []) [''vtk2raw'', ''in.vtk''] world0
       = (Inl (Exit 0), PrintUsage ([''vtk2raw'', ''in.vtk''] ! 0) world0)
   \<and> length [''vtk2raw'', ''in.vtk'', ''out.raw'', ''2''] = 4
   \<and> atoi ([''vtk2raw'', ''in.vtk'', ''out.raw'', ''2''] ! 3) = Some 2
   \<and> main (host_with LittleEndian []) [''vtk2raw'', ''in.vtk'', ''out.raw'', ''2''] world0
       = (Inl (Exit 1), print_error (''Binary option should be either 0 or 1.'' @ newline) world0)
   \<and> atoi ([''vtk2raw'', ''in.vtk'', ''out.raw'', ''0''] ! 3) = Some 0
   \<and> main (host_with LittleEndian []) [''vtk2raw'', ''in.vtk'', ''out.raw'', ''0''] world0
       = main (host_with LittleEndian []) (take 3 [''vtk2raw'', ''in.vtk'', ''out.raw'', ''0''])
           world0
   \<and> 4 < length [''vtk2raw'', ''in.vtk'', ''out.raw'', ''1'', ''more'']
   \<and> main (host_with LittleEndian []) [''vtk2raw'', ''in.vtk'', ''out.raw'', ''1'', ''more'']
         world0
       = main (host_with LittleEndian [])
           (take 3 [''vtk2raw'', ''in.vtk'', ''out.raw'', ''1'', ''more'']) world0"
proof -
  note c = command_line [of _ "host_with LittleEndian []" world0]
  have a: "length [''vtk2raw'', ''in.vtk''] = 2" by simp
  have b: "length [''vtk2raw'', ''in.vtk'', ''out.raw'', ''2''] = 4"
    "atoi ([''vtk2raw'', ''in.vtk'', ''out.raw'', ''2''] ! 3) = Some 2" "(2 :: int) \<noteq> 0"
    "(2 :: int) \<noteq> 1"
    by (simp_all add: atoi_flags)
  have d: "length [''vtk2raw'', ''in.vtk'', ''out.raw'', ''0''] = 4"
    "atoi ([''vtk2raw'', ''in.vtk'', ''out.raw'', ''0''] ! 3) = Some 0"
    by (simp_all add: atoi_flags)
  have e: "4 < length [''vtk2raw'', ''in.vtk'', ''out.raw'', ''1'', ''more'']" by simp
  from c [of "[''vtk2raw'', ''in.vtk'']" 2] a
  have 1: "main (host_with LittleEndian []) [''vtk2raw'', ''in.vtk''] world0
       = (Inl (Exit 0), PrintUsage ([''vtk2raw'', ''in.vtk''] ! 0) world0)"
    by blast
  from c [of "[''vtk2raw'', ''in.vtk'', ''out.raw'', ''2'']" 2] b
  have 2: "main (host_with LittleEndian []) [''vtk2raw'', ''in.vtk'', ''out.raw'', ''2''] world0
       = (Inl (Exit 1), print_error (''Binary option should be either 0 or 1.'' @ newline) world0)"
    by blast
  from c [of "[''vtk2raw'', ''in.vtk'', ''out.raw'', ''0'']" 2] d
  have 3: "main (host_with LittleEndian []) [''vtk2raw'', ''in.vtk'', ''out.raw'', ''0''] world0
       = main (host_with LittleEndian []) (take 3 [''vtk2raw'', ''in.vtk'', ''out.raw'', ''0''])
           world0"
    by blast
  from c [of "[''vtk2raw'', ''in.vtk'', ''out.raw'', ''1'', ''more'']" 2] e
  have 4: "main (host_with LittleEndian []) [''vtk2raw'', ''in.vtk'', ''out.raw'', ''1'', ''more'']
         world0
       = main (host_with LittleEndian [])
           (take 3 [''vtk2raw'', ''in.vtk'', ''out.raw'', ''1'', ''more'']) world0"
    by blast
  from a b(1,2) d(2) e 1 2 3 4 show ?thesis by blast
qed

text \<open>
  The claim as it was made fails three times over: with an argument missing the status
  is 0; with a further argument the run succeeds and writes the file; and the report on a
  flag of 2 is one line that is not the usage text.
\<close>

theorem command_line_counterexample:
  "main (host_with LittleEndian []) [''vtk2raw'', ''in.vtk''] world0
     = (Inl (Exit 0), PrintUsage ''vtk2raw'' world0)
   \<and> main (host_with LittleEndian [Some array_A, Some array_B])
        [''vtk2raw'', ''in.vtk'', ''out.raw'', ''1'', ''more''] world0
     = (Inr EXIT_SUCCESS, world0\<lparr>disk := (disk world0)(''out.raw'' \<mapsto>
          ''1'' @ tab @ ''2'' @ tab @ ''5'' @ newline @ ''3'' @ tab @ ''4'' @ tab @ ''6'')\<rparr>)
   \<and> main (host_with LittleEndian []) [''vtk2raw'', ''in.vtk'', ''out.raw'', ''2''] world0
     = (Inl (Exit 1), world0\<lparr>cerr := ''Binary option should be either 0 or 1.'' @ newline\<rparr>)
   \<and> ''Binary option should be either 0 or 1.'' @ newline \<noteq> cerr (PrintUsage ''vtk2raw'' world0)"
proof -
  have f: "format_g 16 d1 = ''1''" "format_g 16 d2 = ''2''" "format_g 16 d3 = ''3''"
    "format_g 16 d4 = ''4''" "format_g 16 d5 = ''5''" "format_g 16 d6 = ''6''"
    by (simp_all add: format_defs Let_def d1_def d2_def d3_def d4_def d5_def d6_def)
  have ty: "DetermineInputFileType ''in.vtk'' w = (Inr VTK, w)" for w
    by (simp add: DetermineInputFileType_def find_last_of_def CHAR_LENGTH_def)
  have 1: "main (host_with LittleEndian []) [''vtk2raw'', ''in.vtk''] world0
     = (Inl (Exit 0), PrintUsage ''vtk2raw'' world0)"
    by (simp add: main_def)
  have 2: "main (host_with LittleEndian [Some array_A, Some array_B])
        [''vtk2raw'', ''in.vtk'', ''out.raw'', ''1'', ''more''] world0
     = (Inr EXIT_SUCCESS, world0\<lparr>disk := (disk world0)(''out.raw'' \<mapsto>
          ''1'' @ tab @ ''2'' @ tab @ ''5'' @ newline @ ''3'' @ tab @ ''4'' @ tab @ ''6'')\<rparr>)"
    by (simp add: main_def ReadDataSetWriteToOutput_def ty
        ReadVTKInputFileWriteToOutputFile_def run_defs check_arrays.simps for_loop.simps
        array_A_def array_B_def f)
  have 3: "main (host_with LittleEndian []) [''vtk2raw'', ''in.vtk'', ''out.raw'', ''2''] world0
     = (Inl (Exit 1), world0\<lparr>cerr := ''Binary option should be either 0 or 1.'' @ newline\<rparr>)"
    by (simp add: main_def atoi_flags print_error_def world0_def)
  have 4: "''Binary option should be either 0 or 1.'' @ newline
           \<noteq> cerr (PrintUsage ''vtk2raw'' world0)"
    by (simp add: PrintUsage_def print_error_def world0_def)
  from 1 2 3 4 show ?thesis by blast
qed

subsection \<open>C9: the dispatch on the extension\<close>





subsection \<open>C10: no tuples\<close>

text \<open>
  C10.  A run of \<^verbatim>\<open>WriteArraysToOutputFile\<close> that gets past the checks and opens the
  file, on point data whose first array has no tuple, leaves the output file empty, in
  text mode and in binary mode alike; and neither writer adds a byte to its stream.
\<close>

theorem zero_tuples_empty_output:
  assumes "WriteArraysToOutputFile h P fn b w = (Inr u, w')"
    and "hd P = Some a" "GetNumberOfTuples a = 0"
  shows "disk w' fn = Some []
       \<and> WriteArraysToASCIIFile f (a # A) N C = f
       \<and> WriteArraysToBinaryFile e f (a # A) N C = f"
proof -
  from assms(1) obtain As where
    As: "map Some As = take (unat (of_nat (length P) :: 32 word)) P" and ne: "As \<noteq> []"
    and w': "w' = w\<lparr>disk := (disk w)(fn \<mapsto> contents
       (if b = False
        then WriteArraysToASCIIFile fresh As (of_nat (length P)) (map GetNumberOfComponents As)
        else WriteArraysToBinaryFile (byte_order h) fresh As (of_nat (length P))
               (map GetNumberOfComponents As)))\<rparr>"
    by (rule WriteArraysToOutputFile_returns)
  have "take (unat (of_nat (length P) :: 32 word)) P \<noteq> []"
  proof
    assume "take (unat (of_nat (length P) :: 32 word)) P = []"
    with As have "map Some As = []" by simp
    with ne show False by simp
  qed
  then have "hd (take (unat (of_nat (length P) :: 32 word)) P) = hd P"
    by (cases P; cases "unat (of_nat (length P) :: 32 word)") simp_all
  with As ne assms(2) have "Some (hd As) = Some a"
    by (metis hd_map)
  with ne have "As ! 0 = a" by (simp add: hd_conv_nth)
  with assms(3) have z: "GetNumberOfTuples (As ! 0) = 0" by simp
  have "disk w' fn = Some []"
    unfolding w' by (simp add: writers_zero_tuples [OF z] fresh_def)
  moreover have "GetNumberOfTuples ((a # A) ! 0) = 0" using assms(3) by simp
  ultimately show ?thesis by (simp add: writers_zero_tuples)
qed

theorem zero_tuples_empty_output_witness:
  "WriteArraysToOutputFile (host_with LittleEndian []) [Some (data_array ''Z'' 1 [])]
      ''out.raw'' True world0
     = (Inr (), world0\<lparr>disk := (disk world0)(''out.raw'' \<mapsto> [])\<rparr>)
   \<and> hd [Some (data_array ''Z'' 1 [])] = Some (data_array ''Z'' 1 [])
   \<and> GetNumberOfTuples (data_array ''Z'' 1 []) = 0
   \<and> disk (world0\<lparr>disk := (disk world0)(''out.raw'' \<mapsto> [])\<rparr>) ''out.raw'' = Some []
   \<and> WriteArraysToASCIIFile fresh (data_array ''Z'' 1 [] # []) 1 [1] = fresh
   \<and> WriteArraysToBinaryFile LittleEndian fresh (data_array ''Z'' 1 [] # []) 1 [1] = fresh"
proof -
  have r: "WriteArraysToOutputFile (host_with LittleEndian []) [Some (data_array ''Z'' 1 [])]
      ''out.raw'' True world0
     = (Inr (), world0\<lparr>disk := (disk world0)(''out.raw'' \<mapsto> [])\<rparr>)"
    by (simp add: run_defs check_arrays.simps for_loop.simps)
  have h: "hd [Some (data_array ''Z'' 1 [])] = Some (data_array ''Z'' 1 [])" by simp
  have z: "GetNumberOfTuples (data_array ''Z'' 1 []) = 0" by (simp add: data_array_def)
  from zero_tuples_empty_output [OF r h z, of fresh "[]" 1 "[1]" LittleEndian] r h z
  show ?thesis by blast
qed

end
